theory Spec2Isabelle
  imports Main
begin

section \<open>Values of the runtime\<close>

text \<open>
  A string of the runtime is a sequence of UTF-16 code units. Versions and chain
  identifiers are bigints (\<open>0n\<close>, \<open>2n\<close>, \<open>+ 1n\<close>), which do not overflow: they are
  \<open>int\<close>. A number is a double: a finite one is \<open>m * 2 ^ e\<close> for integers \<open>m\<close>
  and \<open>e\<close>, and the conversion to a bigint below is exact, so no rounding is involved.
\<close>

type_synonym jsstring = "nat list"

datatype jsnumber = Finite int int | NaN | Infinity bool

text \<open>
  What the two programs can throw: the errors of the runtime, a rejection of the
  underlying stream (its reason is opaque), and the \<open>Error\<close> of lines 77-79 of
  \<open>01_sqlite.ts\<close> (lines 32-34 of \<open>00_basic.ts\<close>), which carries the chain identifier
  it reports.
\<close>

datatype exn = TypeError | RangeError | SyntaxError | Rejection string | ChainIdMismatch int

subsection \<open>The conversion \<open>BigInt(v)\<close>\<close>

text \<open>
  \<open>01_sqlite.ts\<close>, lines 37-41, types the column read from the store as
  \<open>string | number | bigint\<close>; line 45 applies \<open>BigInt\<close> to it.
\<close>

datatype sqlval = VString jsstring | VNumber jsnumber | VBigInt int

text \<open>White space and line terminators of the language, as code units.\<close>

definition StrWhiteSpaceChar :: "nat \<Rightarrow> bool" where
  "StrWhiteSpaceChar c \<longleftrightarrow>
     c = 0x09 \<or> c = 0x0A \<or> c = 0x0B \<or> c = 0x0C \<or> c = 0x0D \<or> c = 0x20 \<or> c = 0xA0 \<or>
     c = 0x1680 \<or> (0x2000 \<le> c \<and> c \<le> 0x200A) \<or> c = 0x2028 \<or> c = 0x2029 \<or>
     c = 0x202F \<or> c = 0x205F \<or> c = 0x3000 \<or> c = 0xFEFF"

definition trim :: "jsstring \<Rightarrow> jsstring" where
  "trim s = rev (dropWhile StrWhiteSpaceChar (rev (dropWhile StrWhiteSpaceChar s)))"

text \<open>The value of a digit: \<open>0\<close>-\<open>9\<close>, \<open>a\<close>-\<open>f\<close>, \<open>A\<close>-\<open>F\<close>.\<close>

definition digit :: "nat \<Rightarrow> nat option" where
  "digit c =
     (if 0x30 \<le> c \<and> c \<le> 0x39 then Some (c - 0x30)
      else if 0x61 \<le> c \<and> c \<le> 0x66 then Some (c - 0x61 + 10)
      else if 0x41 \<le> c \<and> c \<le> 0x46 then Some (c - 0x41 + 10)
      else None)"

fun digits :: "nat \<Rightarrow> jsstring \<Rightarrow> nat \<Rightarrow> nat option" where
  "digits r [] acc = Some acc"
| "digits r (c # cs) acc =
     (case digit c of
        None \<Rightarrow> None
      | Some d \<Rightarrow> if d < r then digits r cs (acc * r + d) else None)"

text \<open>One digit at least: \<open>''''\<close>, \<open>''+''\<close> and \<open>''0x''\<close> are no literals.\<close>

definition literal :: "nat \<Rightarrow> jsstring \<Rightarrow> nat option" where
  "literal r cs = (if cs = [] then None else digits r cs 0)"

text \<open>
  \<open>StringToBigInt\<close>: white space around the literal is dropped; the empty string is
  \<open>0n\<close>; a decimal literal may have a sign; a binary, octal or hexadecimal one
  (\<open>0b\<close>, \<open>0o\<close>, \<open>0x\<close>, in either case) has none. \<open>None\<close> is the result
  \<open>undefined\<close>, for which \<open>BigInt\<close> throws a \<open>SyntaxError\<close>.
\<close>

definition StringToBigInt :: "jsstring \<Rightarrow> int option" where
  "StringToBigInt str =
     (case trim str of
        [] \<Rightarrow> Some 0
      | c # cs \<Rightarrow>
          if c = 0x2B then map_option int (literal 10 cs)
          else if c = 0x2D then map_option (\<lambda>n. - int n) (literal 10 cs)
          else if c = 0x30 \<and> cs \<noteq> [] \<and> (hd cs = 0x62 \<or> hd cs = 0x42)
            then map_option int (literal 2 (tl cs))
          else if c = 0x30 \<and> cs \<noteq> [] \<and> (hd cs = 0x6F \<or> hd cs = 0x4F)
            then map_option int (literal 8 (tl cs))
          else if c = 0x30 \<and> cs \<noteq> [] \<and> (hd cs = 0x78 \<or> hd cs = 0x58)
            then map_option int (literal 16 (tl cs))
          else map_option int (literal 10 (c # cs)))"

text \<open>
  \<open>NumberToBigInt\<close>: a number that is not an integer (a fraction, \<open>NaN\<close>, an infinity)
  is a \<open>RangeError\<close>; an integral one gives its exact value.
\<close>

fun NumberToBigInt :: "jsnumber \<Rightarrow> exn + int" where
  "NumberToBigInt (Finite m e) =
     (if 0 \<le> e then Inr (m * 2 ^ nat e)
      else if m mod 2 ^ nat (- e) = 0 then Inr (m div 2 ^ nat (- e))
      else Inl RangeError)"
| "NumberToBigInt NaN = Inl RangeError"
| "NumberToBigInt (Infinity _) = Inl RangeError"

fun BigInt :: "sqlval \<Rightarrow> exn + int" where
  "BigInt (VBigInt n) = Inr n"
| "BigInt (VNumber x) = NumberToBigInt x"
| "BigInt (VString s) =
     (case StringToBigInt s of None \<Rightarrow> Inl SyntaxError | Some n \<Rightarrow> Inr n)"

section \<open>The checkpoint store\<close>

text \<open>
  The database is the content of its table \<open>kv\<close>: a map from the column \<open>k\<close> to the
  column \<open>v\<close>. A database file that has no such table yet is the empty map, which is
  what \<open>create table if not exists\<close> (line 35) makes of it; on an existing table the
  statement changes nothing. The database is opened with \<open>safeIntegers: true\<close>
  (line 63): an integer comes back as the bigint that went in, and a bigint bound to a
  statement has to fit a signed 64-bit integer, or \<open>run\<close> throws a \<open>RangeError\<close>
  and writes nothing. Apart from that, statements are taken to succeed.
\<close>

type_synonym database = "string \<rightharpoonup> sqlval"

definition db_exec_create :: "database \<Rightarrow> database" where
  "db_exec_create db = db"

text \<open>Lines 37-41: \<open>select v from kv where k = 'startingVersion'\<close>, the row or none.\<close>

definition db_get :: "database \<Rightarrow> sqlval option" where
  "db_get db = db ''startingVersion''"

text \<open>The bigints that a statement of this database takes.\<close>

definition int64 :: "int \<Rightarrow> bool" where
  "int64 n \<longleftrightarrow> - (2 ^ 63) \<le> n \<and> n < 2 ^ 63"

text \<open>
  Lines 53-55: insert, or on a conflict on \<open>k\<close> overwrite \<open>v\<close>; a bigint out of
  range is refused.
\<close>

definition db_upsert :: "database \<Rightarrow> int \<Rightarrow> exn + database" where
  "db_upsert db n =
     (if int64 n then Inr (db(''startingVersion'' \<mapsto> VBigInt n)) else Inl RangeError)"

section \<open>Events and the underlying stream\<close>

text \<open>
  A transaction's \<open>version\<close> is optional in its type (the programs read it with \<open>!\<close>).
  The payloads of the three other events are opaque here.
\<close>

record transaction =
  version :: "int option"

datatype event =
    Data int "transaction list"
  | Error string
  | Metadata string
  | Status string

text \<open>
  \<open>streamTransactions\<close> is imported, its code is not part of these two files: it is a
  parameter of everything below. A call returns an asynchronous iterator; what the
  consumer sees of it is the outcome of its first, second, ... call of \<open>next()\<close>: an
  event, the end of the sequence, or a rejection (with a reason that is opaque here).
  No bound on the length is assumed.
\<close>

datatype pull = Item event | Finished | Rejected string

type_synonym session = "nat \<Rightarrow> pull"

record opts =
  url :: string
  apiKey :: string

record config = opts +
  startingVersion :: int

text \<open>A finite session, for concrete runs: the events of the list, then the end.\<close>

definition session_of :: "event list \<Rightarrow> session" where
  "session_of es i = (if i < length es then Item (es ! i) else Finished)"

section \<open>Array reads\<close>

text \<open>
  \<open>xs[i]\<close> out of range is \<open>undefined\<close>; reading a property of \<open>undefined\<close> throws a
  \<open>TypeError\<close>; so does \<open>undefined + 1n\<close>.
\<close>

definition at :: "'a list \<Rightarrow> int \<Rightarrow> 'a option" where
  "at xs i = (if 0 \<le> i \<and> i < int (length xs) then Some (xs ! nat i) else None)"

definition version_of :: "transaction option \<Rightarrow> exn + int option" where
  "version_of t = (case t of None \<Rightarrow> Inl TypeError | Some tx \<Rightarrow> Inr (version tx))"

definition plus_1n :: "int option \<Rightarrow> exn + int" where
  "plus_1n v = (case v of None \<Rightarrow> Inl TypeError | Some n \<Rightarrow> Inr (n + 1))"

text \<open>Lines 50-51 of \<open>01_sqlite.ts\<close>.\<close>

definition nextStartingVersion :: "transaction list \<Rightarrow> exn + int" where
  "nextStartingVersion txs =
     (case version_of (at txs (int (length txs) - 1)) of
        Inl x \<Rightarrow> Inl x
      | Inr v \<Rightarrow> plus_1n v)"

section \<open>The generator \<open>streamAndPersistTransactions\<close>\<close>

text \<open>
  An asynchronous generator runs only when its caller asks: \<open>next()\<close> runs it to the
  next \<open>yield\<close>, to its end, or to a throw; \<open>return()\<close>, which a \<open>for await\<close> loop
  calls when it is left by \<open>break\<close> or by a throw in its body, completes it where it
  is suspended. Between two calls the generator is in one of three states: not yet
  started; suspended at the \<open>yield\<close> of line 47, holding the iterator of the
  underlying stream (the session and the number of calls of its \<open>next()\<close> so far) and
  the variable \<open>event\<close>; or completed.
\<close>

datatype gstate = SuspendedStart | SuspendedYield session nat event | Completed

text \<open>How the promise of a call settles.\<close>

datatype outcome = Yielded event | Done | Threw exn

text \<open>What a call does, in order: the effects on the store, on the stream, on the caller.\<close>

datatype action =
    DbExec
  | DbGet "sqlval option"
  | Open config
  | Pull pull
  | Yield event
  | Upsert int
  | Close
  | Throw exn
  | Return

record result =
  settled :: outcome
  gen :: gstate
  store :: database
  acts :: "action list"

text \<open>
  The head of the loop of line 43: the \<open>i\<close>-th \<open>next()\<close> of the stream, then line 47.
  A rejection of the stream is thrown on; its end ends the generator.
\<close>

definition advance :: "session \<Rightarrow> nat \<Rightarrow> database \<Rightarrow> action list \<Rightarrow> result" where
  "advance s i db as =
     (case s i of
        Item e \<Rightarrow>
          \<lparr>settled = Yielded e, gen = SuspendedYield s (Suc i) e, store = db,
           acts = as @ [Pull (Item e), Yield e]\<rparr>
      | Finished \<Rightarrow>
          \<lparr>settled = Done, gen = Completed, store = db, acts = as @ [Pull Finished, Return]\<rparr>
      | Rejected x \<Rightarrow>
          \<lparr>settled = Threw (Rejection x), gen = Completed, store = db,
           acts = as @ [Pull (Rejected x), Throw (Rejection x)]\<rparr>)"

text \<open>
  \<open>next()\<close>. From the start: lines 35-46, then the head of the loop. From the
  \<open>yield\<close>: lines 49-56, then the head of the loop; a throw in the body of the loop
  closes the iterator of the stream before it leaves the generator.
\<close>

definition gen_next ::
    "(config \<Rightarrow> session) \<Rightarrow> opts \<Rightarrow> gstate \<Rightarrow> database \<Rightarrow> result" where
  "gen_next streamTransactions os g db =
     (case g of
        SuspendedStart \<Rightarrow>
          (let db1 = db_exec_create db;
               row = db_get db1;
               v = (case row of None \<Rightarrow> VBigInt 0 | Some v \<Rightarrow> v)
           in case BigInt v of
                Inl x \<Rightarrow>
                  \<lparr>settled = Threw x, gen = Completed, store = db1,
                   acts = [DbExec, DbGet row, Throw x]\<rparr>
              | Inr n \<Rightarrow>
                  (let cfg = \<lparr>url = url os, apiKey = apiKey os, startingVersion = n\<rparr>
                   in advance (streamTransactions cfg) 0 db1 [DbExec, DbGet row, Open cfg]))
      | SuspendedYield s i e \<Rightarrow>
          (case e of
             Data c txs \<Rightarrow>
               (case nextStartingVersion txs of
                  Inl x \<Rightarrow>
                    \<lparr>settled = Threw x, gen = Completed, store = db, acts = [Close, Throw x]\<rparr>
                | Inr n \<Rightarrow>
                    (case db_upsert db n of
                       Inl x \<Rightarrow>
                         \<lparr>settled = Threw x, gen = Completed, store = db,
                          acts = [Close, Throw x]\<rparr>
                     | Inr db' \<Rightarrow> advance s i db' [Upsert n]))
           | _ \<Rightarrow> advance s i db [])
      | Completed \<Rightarrow> \<lparr>settled = Done, gen = Completed, store = db, acts = []\<rparr>)"

text \<open>
  \<open>return()\<close>. At the \<open>yield\<close> it acts as a \<open>return\<close> statement there: the loop of
  line 43 is left, which closes the iterator of the stream, and nothing after line 47
  runs.
\<close>

definition gen_return :: "gstate \<Rightarrow> database \<Rightarrow> result" where
  "gen_return g db =
     (case g of
        SuspendedStart \<Rightarrow> \<lparr>settled = Done, gen = Completed, store = db, acts = [Return]\<rparr>
      | SuspendedYield s i e \<Rightarrow>
          \<lparr>settled = Done, gen = Completed, store = db, acts = [Close, Return]\<rparr>
      | Completed \<Rightarrow> \<lparr>settled = Done, gen = Completed, store = db, acts = []\<rparr>)"

text \<open>A caller that calls \<open>next()\<close> \<open>n\<close> times, whatever it gets.\<close>

fun drive ::
    "(config \<Rightarrow> session) \<Rightarrow> opts \<Rightarrow> nat \<Rightarrow> gstate \<Rightarrow> database \<Rightarrow>
     gstate \<times> database \<times> action list" where
  "drive ST os 0 g db = (g, db, [])"
| "drive ST os (Suc n) g db =
     (let r = gen_next ST os g db;
          (g', db', as) = drive ST os n (gen r) (store r)
      in (g', db', acts r @ as))"

section \<open>The callers\<close>

text \<open>
  The body of the loop is the same in both files (\<open>00_basic.ts\<close>, lines 29-58;
  \<open>01_sqlite.ts\<close>, lines 74-103): what it prints, or what it throws.
\<close>

datatype console =
    ConsoleDebug nat "int option" "int option"
  | ConsoleError string
  | ConsoleLog string

definition handle_event :: "event \<Rightarrow> exn + console" where
  "handle_event ev =
     (case ev of
        Data c txs \<Rightarrow>
          if c \<noteq> 2 then Inl (ChainIdMismatch c)
          else (case version_of (at txs 0) of
                  Inl x \<Rightarrow> Inl x
                | Inr startVersion \<Rightarrow>
                    (case version_of (at txs (int (length txs) - 1)) of
                       Inl x \<Rightarrow> Inl x
                     | Inr endVersion \<Rightarrow>
                         Inr (ConsoleDebug (length txs) startVersion endVersion)))
      | Error x \<Rightarrow> Inr (ConsoleError x)
      | Metadata m \<Rightarrow> Inr (ConsoleLog m)
      | Status st \<Rightarrow> Inr (ConsoleLog st))"

text \<open>
  The loop of lines 69-104 of \<open>01_sqlite.ts\<close>, which may run for ever: with fuel, one
  unit for each \<open>next()\<close>. A throw in the body leaves the loop, which calls
  \<open>return()\<close> on the generator, and the throw goes on. The program ends \<open>Exited\<close>
  (the sequence ended), \<open>Failed\<close> (an uncaught throw), or is still \<open>Running\<close> when
  the fuel is used up.
\<close>

datatype status = Exited | Failed exn | Running

record run =
  ended :: status
  gen_after :: gstate
  store_after :: database
  trace :: "action list"
  printed :: "console list"

fun main_loop ::
    "(config \<Rightarrow> session) \<Rightarrow> opts \<Rightarrow> nat \<Rightarrow> gstate \<Rightarrow> database \<Rightarrow> run" where
  "main_loop ST os 0 g db =
     \<lparr>ended = Running, gen_after = g, store_after = db, trace = [], printed = []\<rparr>"
| "main_loop ST os (Suc n) g db =
     (let r = gen_next ST os g db in
      case settled r of
        Done \<Rightarrow>
          \<lparr>ended = Exited, gen_after = gen r, store_after = store r, trace = acts r,
           printed = []\<rparr>
      | Threw x \<Rightarrow>
          \<lparr>ended = Failed x, gen_after = gen r, store_after = store r, trace = acts r,
           printed = []\<rparr>
      | Yielded ev \<Rightarrow>
          (case handle_event ev of
             Inl x \<Rightarrow>
               (let r' = gen_return (gen r) (store r) in
                \<lparr>ended = Failed x, gen_after = gen r', store_after = store r',
                 trace = acts r @ acts r', printed = []\<rparr>)
           | Inr out \<Rightarrow>
               (let m = main_loop ST os n (gen r) (store r) in
                m\<lparr>trace := acts r @ trace m, printed := out # printed m\<rparr>)))"

text \<open>
  The loop of lines 24-59 of \<open>00_basic.ts\<close>, over the stream itself, from its
  \<open>i\<close>-th event on, with fuel in the same way.
\<close>

fun basic_loop :: "session \<Rightarrow> nat \<Rightarrow> nat \<Rightarrow> status \<times> console list" where
  "basic_loop s i 0 = (Running, [])"
| "basic_loop s i (Suc n) =
     (case s i of
        Finished \<Rightarrow> (Exited, [])
      | Rejected x \<Rightarrow> (Failed (Rejection x), [])
      | Item ev \<Rightarrow>
          (case handle_event ev of
             Inl x \<Rightarrow> (Failed x, [])
           | Inr out \<Rightarrow>
               (let (st, ps) = basic_loop s (Suc i) n in (st, out # ps))))"

text \<open>
  The options of the program of \<open>01_sqlite.ts\<close> (lines 69-73), for a given key, and
  a transaction of a given version.
\<close>

definition testnet :: "string \<Rightarrow> opts" where
  "testnet key = \<lparr>url = ''grpc.testnet.aptoslabs.com:443'', apiKey = key\<rparr>"

definition tx :: "int \<Rightarrow> transaction" where
  "tx v = \<lparr>version = Some v\<rparr>"

text \<open>A store that holds the checkpoint \<open>n\<close>.\<close>

definition checkpointed :: "int \<Rightarrow> database" where
  "checkpointed n = [''startingVersion'' \<mapsto> VBigInt n]"

text \<open>A stream that has ended, whatever it is asked for.\<close>

definition ended_stream :: "config \<Rightarrow> session" where
  "ended_stream cfg = session_of []"

section \<open>Reading a run\<close>

text \<open>The events yielded to the caller, in order.\<close>

fun yields :: "action list \<Rightarrow> event list" where
  "yields [] = []"
| "yields (Yield e # as) = e # yields as"
| "yields (a # as) = yields as"

text \<open>The events received from the underlying stream, in order.\<close>

fun received :: "action list \<Rightarrow> event list" where
  "received [] = []"
| "received (Pull (Item e) # as) = e # received as"
| "received (a # as) = received as"

text \<open>The values written to the store, in order.\<close>

fun upserts :: "action list \<Rightarrow> int list" where
  "upserts [] = []"
| "upserts (Upsert n # as) = n # upserts as"
| "upserts (a # as) = upserts as"

text \<open>The calls of \<open>streamTransactions\<close>, by their argument.\<close>

fun opened :: "action list \<Rightarrow> config list" where
  "opened [] = []"
| "opened (Open cfg # as) = cfg # opened as"
| "opened (a # as) = opened as"

text \<open>The event a suspended generator has yielded and not yet dealt with.\<close>

fun pending :: "gstate \<Rightarrow> event option" where
  "pending (SuspendedYield s i e) = Some e"
| "pending _ = None"

fun is_data :: "event \<Rightarrow> bool" where
  "is_data (Data c txs) = True"
| "is_data _ = False"

text \<open>
  The order of yields and writes in a run: a write is for the event yielded last, a
  data event, whose last version plus one it is; an event is written for once at
  most; and nothing is written once the generator has closed the stream, thrown or
  returned. The first argument is the event yielded last, as long as nothing was
  written for it.
\<close>

fun upserts_follow :: "event option \<Rightarrow> action list \<Rightarrow> bool" where
  "upserts_follow p [] = True"
| "upserts_follow p (Yield e # as) = upserts_follow (Some e) as"
| "upserts_follow p (Upsert n # as) =
     ((case p of
         Some (Data c txs) \<Rightarrow> nextStartingVersion txs = Inr n
       | _ \<Rightarrow> False) \<and> upserts_follow None as)"
| "upserts_follow p (Close # as) = upserts_follow None as"
| "upserts_follow p (Throw x # as) = upserts_follow None as"
| "upserts_follow p (Return # as) = upserts_follow None as"
| "upserts_follow p (a # as) = upserts_follow p as"

text \<open>
  The checkpoint a store holds once the events of a list have all been yielded and
  dealt with, from the checkpoint it held before.
\<close>

fun commit :: "sqlval option \<Rightarrow> event \<Rightarrow> sqlval option" where
  "commit cp (Data c txs) =
     (case nextStartingVersion txs of Inl x \<Rightarrow> cp | Inr n \<Rightarrow> Some (VBigInt n))"
| "commit cp e = cp"

definition committed :: "sqlval option \<Rightarrow> event list \<Rightarrow> sqlval option" where
  "committed cp es = foldl commit cp es"

text \<open>
  The events after which the generator can be resumed without a throw in lines 49-56:
  all but a data event whose batch has no last version, or one whose last version plus
  one the store refuses.
\<close>

definition resumable :: "event \<Rightarrow> bool" where
  "resumable e =
     (case e of
        Data c txs \<Rightarrow>
          (case nextStartingVersion txs of Inl x \<Rightarrow> False | Inr n \<Rightarrow> int64 n)
      | _ \<Rightarrow> True)"

text \<open>The events of the first \<open>k\<close> calls of \<open>next()\<close> on a session, from its \<open>i\<close>-th.\<close>

fun take_items :: "session \<Rightarrow> nat \<Rightarrow> nat \<Rightarrow> event list" where
  "take_items s i 0 = []"
| "take_items s i (Suc k) =
     (case s i of Item e \<Rightarrow> e # take_items s (Suc i) k | _ \<Rightarrow> [])"

text \<open>The first transaction of a sequence of events.\<close>

fun first_transaction :: "event list \<Rightarrow> transaction option" where
  "first_transaction [] = None"
| "first_transaction (Data c (t # ts) # es) = Some t"
| "first_transaction (e # es) = first_transaction es"

text \<open>
  Modelled from the spec: \<open>streamTransactions\<close> is not among the sources; section 6
  of the specification gives its contract for the starting version:
  "\<open>startingVersion\<close> is inclusive (the first transaction returned has
  \<open>version >= startingVersion\<close>)". A session keeps it for \<open>v\<close> when the first
  transaction of every initial part of it has a version of at least \<open>v\<close>.
\<close>

definition inclusive :: "session \<Rightarrow> int \<Rightarrow> bool" where
  "inclusive s v \<longleftrightarrow>
     (\<forall>k t w. first_transaction (take_items s 0 k) = Some t \<longrightarrow> version t = Some w \<longrightarrow> v \<le> w)"

subsection \<open>Representations of a version in the store\<close>

text \<open>
  The decimal string of a bigint, as the runtime prints it: a minus sign for a
  negative one, no leading zero.
\<close>

fun decimal_nat :: "nat \<Rightarrow> jsstring" where
  "decimal_nat n =
     (if n < 10 then [0x30 + n] else decimal_nat (n div 10) @ [0x30 + n mod 10])"

declare decimal_nat.simps [simp del]

definition decimal :: "int \<Rightarrow> jsstring" where
  "decimal n = (if n < 0 then 0x2D # decimal_nat (nat (- n)) else decimal_nat (nat n))"

text \<open>
  A value of the column stands for the version \<open>n\<close>: the bigint \<open>n\<close>, a number whose
  value is \<open>n\<close>, or the decimal string of \<open>n\<close>.
\<close>

fun represents :: "sqlval \<Rightarrow> int \<Rightarrow> bool" where
  "represents (VBigInt m) n = (m = n)"
| "represents (VNumber (Finite m e)) n =
     (if 0 \<le> e then m * 2 ^ nat e = n else m = n * 2 ^ nat (- e))"
| "represents (VNumber NaN) n = False"
| "represents (VNumber (Infinity b)) n = False"
| "represents (VString s) n = (s = decimal n)"

section \<open>The stream session, from the specification\<close>

text \<open>
  Modelled from the spec: \<open>streamTransactions\<close>, the stream session of section 4.1,
  is not among the sources. Of it, this is the framing of what the server sends into
  events: "On receiving server data, frames it into zero or more Data events, each
  wrapping one batch received from the wire. Batch boundaries are preserved"; metadata
  and status are "purely informational passthrough"; a transport error is "surfaced as
  an Error event; terminates the current session's sequence"; and an empty batch is a
  protocol violation (section 7), "rejected as a protocol violation, not delivered as
  a valid Data event" (section 8), where "every fatal condition ends the event
  sequence after emitting (where feasible) a descriptive Error event". The other
  checks of section 7 are not part of this model.
\<close>

datatype wire =
    WData int "transaction list"
  | WMetadata string
  | WStatus string
  | WError string

fun frame :: "wire list \<Rightarrow> event list" where
  "frame [] = []"
| "frame (WData c txs # ws) =
     (if txs = [] then [Error ''empty batch''] else Data c txs # frame ws)"
| "frame (WMetadata m # ws) = Metadata m # frame ws"
| "frame (WStatus st # ws) = Status st # frame ws"
| "frame (WError x # ws) = [Error x]"

section \<open>Facts about one call\<close>

lemma yields_append: "yields (as @ bs) = yields as @ yields bs"
  by (induction as rule: yields.induct) simp_all

lemma received_append: "received (as @ bs) = received as @ received bs"
  by (induction as rule: received.induct) simp_all

lemma upserts_append: "upserts (as @ bs) = upserts as @ upserts bs"
  by (induction as rule: upserts.induct) simp_all

lemma opened_append: "opened (as @ bs) = opened as @ opened bs"
  by (induction as rule: opened.induct) simp_all

lemma upserts_set: "Upsert n \<in> set as \<longleftrightarrow> n \<in> set (upserts as)"
  by (induction as rule: upserts.induct) auto

lemma nextStartingVersion_last:
  "nextStartingVersion txs = Inr n \<longleftrightarrow> txs \<noteq> [] \<and> version (last txs) = Some (n - 1)"
  by (cases txs rule: rev_cases)
     (auto simp: nextStartingVersion_def at_def version_of_def plus_1n_def nth_append
           split: option.splits)

text \<open>
  What both programs do with a batch that has no transaction, were they given one:
  the read of its last (or first) transaction's version throws.
\<close>

lemma empty_batch_throws:
  "nextStartingVersion [] = Inl TypeError"
  "handle_event (Data 2 []) = Inl TypeError"
  by (simp_all add: nextStartingVersion_def handle_event_def at_def version_of_def)

lemma store_advance: "store (advance s i db as) = db"
  by (simp add: advance_def split: pull.splits)

lemma upserts_advance: "upserts (acts (advance s i db as)) = upserts as"
  by (simp add: advance_def upserts_append split: pull.splits)

lemma opened_advance: "opened (acts (advance s i db as)) = opened as"
  by (simp add: advance_def opened_append split: pull.splits)

lemma yields_advance:
  "yields (acts (advance s i db as)) = yields as @ (case s i of Item e \<Rightarrow> [e] | _ \<Rightarrow> [])"
  by (simp add: advance_def yields_append split: pull.splits)

lemma received_advance:
  "received (acts (advance s i db as)) = received as @ (case s i of Item e \<Rightarrow> [e] | _ \<Rightarrow> [])"
  by (simp add: advance_def received_append split: pull.splits)

lemma gen_advance:
  "gen (advance s i db as) =
     (case s i of Item e \<Rightarrow> SuspendedYield s (Suc i) e | _ \<Rightarrow> Completed)"
  by (simp add: advance_def split: pull.splits)

lemma db_upsert_Inr:
  "db_upsert db n = Inr db' \<longleftrightarrow> int64 n \<and> db' = db(''startingVersion'' \<mapsto> VBigInt n)"
  by (auto simp: db_upsert_def)

lemma db_upsert_Inl: "db_upsert db n = Inl x \<longleftrightarrow> \<not> int64 n \<and> x = RangeError"
  by (auto simp: db_upsert_def)

section \<open>The checkpoint written for a batch\<close>

text \<open>
  C1. When the generator is resumed after it has yielded a data event whose last
  version plus one fits a signed 64-bit integer, it writes that value under
  \<open>startingVersion\<close>, and this is its only write in that call; a write in that call
  is never another value. When the value does not fit, the store refuses it: the call
  throws a \<open>RangeError\<close> and the store is as it was. The batch has a last
  transaction with a version here: see \<open>nextStartingVersion\<close> for the batches that
  have none. For the versions 100 to 104 the store then holds 105.
\<close>

theorem checkpoint_is_last_version_plus_one:
  "(txs \<noteq> [] \<and> version (last txs) = Some v \<and> int64 (v + 1) \<longrightarrow>
      db_get (store (gen_next ST os (SuspendedYield s i (Data c txs)) db)) =
        Some (VBigInt (v + 1)) \<and>
      upserts (acts (gen_next ST os (SuspendedYield s i (Data c txs)) db)) = [v + 1]) \<and>
   (txs \<noteq> [] \<and> version (last txs) = Some v \<and> \<not> int64 (v + 1) \<longrightarrow>
      settled (gen_next ST os (SuspendedYield s i (Data c txs)) db) = Threw RangeError \<and>
      store (gen_next ST os (SuspendedYield s i (Data c txs)) db) = db \<and>
      upserts (acts (gen_next ST os (SuspendedYield s i (Data c txs)) db)) = []) \<and>
   (\<forall>w. Upsert w \<in> set (acts (gen_next ST os (SuspendedYield s i (Data c txs)) db)) \<longrightarrow>
      txs \<noteq> [] \<and> version (last txs) = Some (w - 1) \<and> int64 w)"
proof (intro conjI impI allI)
  assume a: "txs \<noteq> [] \<and> version (last txs) = Some v \<and> int64 (v + 1)"
  then have n: "nextStartingVersion txs = Inr (v + 1)"
    by (simp add: nextStartingVersion_last)
  from a have u: "db_upsert db (v + 1) = Inr (db(''startingVersion'' \<mapsto> VBigInt (v + 1)))"
    by (simp add: db_upsert_def)
  show "db_get (store (gen_next ST os (SuspendedYield s i (Data c txs)) db)) =
      Some (VBigInt (v + 1))"
    by (simp add: gen_next_def n u store_advance db_get_def)
  show "upserts (acts (gen_next ST os (SuspendedYield s i (Data c txs)) db)) = [v + 1]"
    by (simp add: gen_next_def n u upserts_advance)
next
  assume a: "txs \<noteq> [] \<and> version (last txs) = Some v \<and> \<not> int64 (v + 1)"
  then have n: "nextStartingVersion txs = Inr (v + 1)"
    by (simp add: nextStartingVersion_last)
  from a have u: "db_upsert db (v + 1) = Inl RangeError"
    by (simp add: db_upsert_def)
  show "settled (gen_next ST os (SuspendedYield s i (Data c txs)) db) = Threw RangeError"
    by (simp add: gen_next_def n u)
  show "store (gen_next ST os (SuspendedYield s i (Data c txs)) db) = db"
    by (simp add: gen_next_def n u)
  show "upserts (acts (gen_next ST os (SuspendedYield s i (Data c txs)) db)) = []"
    by (simp add: gen_next_def n u)
next
  fix w
  assume u: "Upsert w \<in> set (acts (gen_next ST os (SuspendedYield s i (Data c txs)) db))"
  then have "nextStartingVersion txs = Inr w \<and> int64 w"
    by (cases "nextStartingVersion txs")
       (auto simp: gen_next_def upserts_set upserts_advance db_upsert_def
             split: sum.splits if_splits)
  then show "txs \<noteq> []" and "version (last txs) = Some (w - 1)" and "int64 w"
    by (simp_all add: nextStartingVersion_last)
qed

theorem checkpoint_is_last_version_plus_one_witness:
  "db_get (store (gen_next ended_stream (testnet ''k'')
      (SuspendedYield (session_of []) 1 (Data 2 [tx 100, tx 101, tx 102, tx 103, tx 104]))
      Map.empty)) = Some (VBigInt 105) \<and>
   upserts (acts (gen_next ended_stream (testnet ''k'')
      (SuspendedYield (session_of []) 1 (Data 2 [tx 100, tx 101, tx 102, tx 103, tx 104]))
      Map.empty)) = [105] \<and>
   version (last [tx 100, tx 101, tx 102, tx 103, tx 104]) = Some (105 - 1) \<and>
   settled (gen_next ended_stream (testnet ''k'')
      (SuspendedYield (session_of []) 1 (Data 2 [tx 9223372036854775807]))
      [''startingVersion'' \<mapsto> VBigInt 100]) = Threw RangeError"
proof -
  let ?txs = "[tx 100, tx 101, tx 102, tx 103, tx 104]"
  let ?big = "[tx 9223372036854775807]"
  let ?g = "SuspendedYield (session_of []) 1 (Data 2 ?txs)"
  have h: "?txs \<noteq> [] \<and> version (last ?txs) = Some 104 \<and> int64 (104 + 1)"
    by (simp add: tx_def int64_def)
  have b: "?big \<noteq> [] \<and> version (last ?big) = Some 9223372036854775807 \<and>
      \<not> int64 (9223372036854775807 + 1)"
    by (simp add: tx_def int64_def)
  have u: "Upsert 105 \<in> set (acts (gen_next ended_stream (testnet ''k'') ?g Map.empty))"
    by (simp add: gen_next_def advance_def session_of_def nextStartingVersion_def at_def
          version_of_def plus_1n_def tx_def db_upsert_def int64_def)
  from checkpoint_is_last_version_plus_one
         [of ?txs 104 ended_stream "testnet ''k''" "session_of []" 1 2 Map.empty,
          THEN conjunct1, rule_format, OF h]
    checkpoint_is_last_version_plus_one
         [of ?big 9223372036854775807 ended_stream "testnet ''k''" "session_of []" 1 2
             "[''startingVersion'' \<mapsto> VBigInt 100]",
          THEN conjunct2, THEN conjunct1, rule_format, OF b]
    checkpoint_is_last_version_plus_one
         [of ?txs 104 ended_stream "testnet ''k''" "session_of []" 1 2 Map.empty,
          THEN conjunct2, THEN conjunct2, rule_format, OF u]
  show ?thesis by simp
qed

text \<open>
  Without the bound on the version the statement fails: after a data event whose last
  version is 9223372036854775807 nothing is written, the checkpoint 100 stays in the
  store, and the call throws.
\<close>

theorem checkpoint_out_of_range_counterexample:
  "db_get (store (gen_next ended_stream (testnet ''k'')
      (SuspendedYield (session_of []) 1 (Data 2 [tx 9223372036854775807]))
      (checkpointed 100))) \<noteq> Some (VBigInt (9223372036854775807 + 1)) \<and>
   db_get (store (gen_next ended_stream (testnet ''k'')
      (SuspendedYield (session_of []) 1 (Data 2 [tx 9223372036854775807]))
      (checkpointed 100))) = Some (VBigInt 100) \<and>
   upserts (acts (gen_next ended_stream (testnet ''k'')
      (SuspendedYield (session_of []) 1 (Data 2 [tx 9223372036854775807]))
      (checkpointed 100))) = [] \<and>
   settled (gen_next ended_stream (testnet ''k'')
      (SuspendedYield (session_of []) 1 (Data 2 [tx 9223372036854775807]))
      (checkpointed 100)) = Threw RangeError"
  by (simp add: gen_next_def nextStartingVersion_def at_def version_of_def plus_1n_def
        tx_def db_upsert_def int64_def db_get_def checkpointed_def)

section \<open>Facts about a run\<close>

lemma drive_Completed: "drive ST os n Completed db = (Completed, db, [])"
  by (induction n) (simp_all add: gen_next_def)

lemma yields_received_next: "yields (acts (gen_next ST os g db)) = received (acts (gen_next ST os g db))"
  by (simp add: gen_next_def Let_def yields_advance received_advance
           split: gstate.splits event.splits sum.splits)

lemma yields_received_drive:
  "drive ST os n g db = (g', db', t) \<Longrightarrow> yields t = received t"
proof (induction n arbitrary: g db g' db' t)
  case 0
  then show ?case by simp
next
  case (Suc n)
  obtain g1 db1 t1 where d: "drive ST os n (gen (gen_next ST os g db)) (store (gen_next ST os g db)) = (g1, db1, t1)"
    by (cases "drive ST os n (gen (gen_next ST os g db)) (store (gen_next ST os g db))")
  from Suc.prems d have t: "t = acts (gen_next ST os g db) @ t1"
    by (simp add: Let_def)
  from Suc.IH [OF d] have "yields t1 = received t1" .
  then show ?case
    by (simp add: t yields_append received_append yields_received_next)
qed

lemma next_from_yield:
  "(gen (gen_next ST os (SuspendedYield s i e) db) = Completed \<and>
      yields (acts (gen_next ST os (SuspendedYield s i e) db)) = []) \<or>
   (\<exists>e2. s i = Item e2 \<and> gen (gen_next ST os (SuspendedYield s i e) db) = SuspendedYield s (Suc i) e2 \<and>
      yields (acts (gen_next ST os (SuspendedYield s i e) db)) = [e2])"
  by (cases "s i")
     (simp_all add: gen_next_def yields_advance gen_advance split: event.splits sum.splits)

lemma opened_next_yield: "opened (acts (gen_next ST os (SuspendedYield s i e) db)) = []"
  by (simp add: gen_next_def opened_advance split: event.splits sum.splits)

lemma opened_drive_yield:
  "drive ST os n (SuspendedYield s i e) db = (g', db', t) \<Longrightarrow> opened t = []"
proof (induction n arbitrary: s i e db g' db' t)
  case 0
  then show ?case by simp
next
  case (Suc n)
  let ?r = "gen_next ST os (SuspendedYield s i e) db"
  obtain g1 db1 t1 where d: "drive ST os n (gen ?r) (store ?r) = (g1, db1, t1)"
    by (cases "drive ST os n (gen ?r) (store ?r)")
  from Suc.prems d have t: "t = acts ?r @ t1"
    by (simp add: Let_def)
  from next_from_yield [of ST os s i e db] have "opened t1 = []"
  proof (elim disjE conjE exE)
    assume "gen ?r = Completed"
    with d show ?thesis by (simp add: drive_Completed)
  next
    fix e2 assume "gen ?r = SuspendedYield s (Suc i) e2"
    with d Suc.IH show ?thesis by simp
  qed
  then show ?case by (simp add: t opened_append opened_next_yield)
qed

lemma yields_drive_yield:
  "drive ST os n (SuspendedYield s i e) db = (g', db', t) \<Longrightarrow> \<exists>k\<le>n. yields t = take_items s i k"
proof (induction n arbitrary: i e db g' db' t)
  case 0
  then have "yields t = take_items s i 0" by simp
  then show ?case by blast
next
  case (Suc n)
  let ?r = "gen_next ST os (SuspendedYield s i e) db"
  obtain g1 db1 t1 where d: "drive ST os n (gen ?r) (store ?r) = (g1, db1, t1)"
    by (cases "drive ST os n (gen ?r) (store ?r)")
  from Suc.prems d have t: "t = acts ?r @ t1"
    by (simp add: Let_def)
  from next_from_yield [of ST os s i e db] show ?case
  proof (elim disjE conjE exE)
    assume c: "gen ?r = Completed" and y: "yields (acts ?r) = []"
    from d c have "t1 = []" by (simp add: drive_Completed)
    with y t have "yields t = take_items s i 0" by simp
    then show ?thesis by blast
  next
    fix e2
    assume it: "s i = Item e2" and g: "gen ?r = SuspendedYield s (Suc i) e2"
      and y: "yields (acts ?r) = [e2]"
    from d g have "drive ST os n (SuspendedYield s (Suc i) e2) (store ?r) = (g1, db1, t1)" by simp
    from Suc.IH [OF this] obtain k where k: "k \<le> n" "yields t1 = take_items s (Suc i) k" by blast
    then have "yields t = take_items s i (Suc k)"
      by (simp add: t yields_append y it)
    with k(1) show ?thesis by (metis Suc_le_mono)
  qed
qed

lemma next_from_start:
  "(gen (gen_next ST os SuspendedStart db) = Completed \<and>
      yields (acts (gen_next ST os SuspendedStart db)) = [] \<and>
      opened (acts (gen_next ST os SuspendedStart db)) = []) \<or>
   (gen (gen_next ST os SuspendedStart db) = Completed \<and>
      yields (acts (gen_next ST os SuspendedStart db)) = [] \<and>
      (\<exists>cfg. opened (acts (gen_next ST os SuspendedStart db)) = [cfg])) \<or>
   (\<exists>cfg e2. ST cfg 0 = Item e2 \<and>
      gen (gen_next ST os SuspendedStart db) = SuspendedYield (ST cfg) (Suc 0) e2 \<and>
      yields (acts (gen_next ST os SuspendedStart db)) = [e2] \<and>
      opened (acts (gen_next ST os SuspendedStart db)) = [cfg])"
proof (cases "BigInt (case db_get (db_exec_create db) of None \<Rightarrow> VBigInt 0 | Some v \<Rightarrow> v)")
  case (Inl x)
  then show ?thesis by (simp add: gen_next_def Let_def)
next
  case (Inr n)
  let ?cfg = "\<lparr>url = url os, apiKey = apiKey os, startingVersion = n\<rparr>"
  show ?thesis
    by (cases "ST ?cfg 0")
       (simp_all add: gen_next_def Let_def Inr yields_advance gen_advance opened_advance)
qed

lemma take_items_nth:
  "j < length (take_items s i k) \<Longrightarrow> s (i + j) = Item (take_items s i k ! j)"
proof (induction k arbitrary: i j)
  case 0
  then show ?case by simp
next
  case (Suc k)
  show ?case
  proof (cases j)
    case 0
    with Suc.prems show ?thesis by (cases "s i") simp_all
  next
    case (Suc m)
    with Suc.prems obtain e where e: "s i = Item e" by (cases "s i") simp_all
    with Suc.prems Suc have "m < length (take_items s (Suc i) k)" by simp
    from Suc.IH [OF this] e Suc show ?thesis by simp
  qed
qed

lemma yields_drive_start:
  assumes "drive ST os n SuspendedStart db = (g', db', t)"
  shows "opened t = [] \<and> yields t = [] \<or> (\<exists>cfg. opened t = [cfg] \<and> (\<exists>k\<le>n. yields t = take_items (ST cfg) 0 k))"
proof (cases n)
  case 0
  with assms show ?thesis by simp
next
  case (Suc m)
  let ?r = "gen_next ST os SuspendedStart db"
  obtain g1 db1 t1 where d: "drive ST os m (gen ?r) (store ?r) = (g1, db1, t1)"
    by (cases "drive ST os m (gen ?r) (store ?r)")
  from assms Suc d have t: "t = acts ?r @ t1"
    by (simp add: Let_def)
  from next_from_start [of ST os db] show ?thesis
  proof (elim disjE conjE exE)
    assume c: "gen ?r = Completed" and y: "yields (acts ?r) = []" and o: "opened (acts ?r) = []"
    from d c have "t1 = []" by (simp add: drive_Completed)
    with y o t show ?thesis by simp
  next
    fix cfg
    assume c: "gen ?r = Completed" and y: "yields (acts ?r) = []" and o: "opened (acts ?r) = [cfg]"
    from d c have "t1 = []" by (simp add: drive_Completed)
    with y o t have "opened t = [cfg] \<and> yields t = take_items (ST cfg) 0 0" by simp
    then show ?thesis by blast
  next
    fix cfg e2
    assume it: "ST cfg 0 = Item e2" and g: "gen ?r = SuspendedYield (ST cfg) (Suc 0) e2"
      and y: "yields (acts ?r) = [e2]" and o: "opened (acts ?r) = [cfg]"
    from d g have dd: "drive ST os m (SuspendedYield (ST cfg) (Suc 0) e2) (store ?r) = (g1, db1, t1)" by simp
    from yields_drive_yield [OF dd] obtain k where k: "k \<le> m" "yields t1 = take_items (ST cfg) (Suc 0) k" by blast
    from opened_drive_yield [OF dd] have o1: "opened t1 = []" .
    have "yields t = take_items (ST cfg) 0 (Suc k)"
      by (simp add: t yields_append y it k)
    moreover have "opened t = [cfg]" by (simp add: t opened_append o o1)
    moreover have "Suc k \<le> n" using k(1) Suc by simp
    ultimately show ?thesis by blast
  qed
qed

lemma drive_cases:
  obtains g' db' t where "drive ST os n g db = (g', db', t)"
  by (cases "drive ST os n g db")

lemma next_resumable:
  "resumable e \<Longrightarrow>
     yields (acts (gen_next ST os (SuspendedYield s i e) db)) =
       (case s i of Item e2 \<Rightarrow> [e2] | _ \<Rightarrow> []) \<and>
     gen (gen_next ST os (SuspendedYield s i e) db) =
       (case s i of Item e2 \<Rightarrow> SuspendedYield s (Suc i) e2 | _ \<Rightarrow> Completed)"
  by (cases e)
     (auto simp: resumable_def gen_next_def yields_advance gen_advance db_upsert_def
           split: sum.splits)

lemma progress_yield:
  "drive ST os n (SuspendedYield s i e) db = (g', db', t) \<Longrightarrow>
   (take_items s i n \<noteq> [] \<longrightarrow> resumable e) \<Longrightarrow>
   (\<forall>x \<in> set (butlast (take_items s i n)). resumable x) \<Longrightarrow>
   yields t = take_items s i n"
proof (induction n arbitrary: i e db g' db' t)
  case 0
  then show ?case by simp
next
  case (Suc n)
  let ?r = "gen_next ST os (SuspendedYield s i e) db"
  obtain g1 db1 t1 where d: "drive ST os n (gen ?r) (store ?r) = (g1, db1, t1)"
    by (rule drive_cases)
  from Suc.prems(1) d have t: "t = acts ?r @ t1"
    by (simp add: Let_def)
  show ?case
  proof (cases "s i")
    case (Item e2)
    with Suc.prems(2) have "resumable e" by simp
    from next_resumable [OF this, of ST os s i db] Item
    have y: "yields (acts ?r) = [e2]" and g: "gen ?r = SuspendedYield s (Suc i) e2"
      by simp_all
    from d g have dd: "drive ST os n (SuspendedYield s (Suc i) e2) (store ?r) = (g1, db1, t1)"
      by simp
    have r2: "take_items s (Suc i) n \<noteq> [] \<longrightarrow> resumable e2"
      using Suc.prems(3) Item by simp
    have rs: "\<forall>x \<in> set (butlast (take_items s (Suc i) n)). resumable x"
      using Suc.prems(3) Item by (simp split: if_splits)
    from Suc.IH [OF dd r2 rs] show ?thesis
      by (simp add: t yields_append y Item)
  next
    case Finished
    with next_from_yield [of ST os s i e db]
    have "gen ?r = Completed" and y: "yields (acts ?r) = []" by simp_all
    with d have "t1 = []" by (simp add: drive_Completed)
    with y t Finished show ?thesis by simp
  next
    case (Rejected x)
    with next_from_yield [of ST os s i e db]
    have "gen ?r = Completed" and y: "yields (acts ?r) = []" by simp_all
    with d have "t1 = []" by (simp add: drive_Completed)
    with y t Rejected show ?thesis by simp
  qed
qed

lemma progress_start:
  assumes d: "drive ST os n SuspendedStart db = (g', db', t)"
    and b: "BigInt (case db_get db of None \<Rightarrow> VBigInt 0 | Some v \<Rightarrow> v) = Inr sv"
    and r: "\<forall>x \<in> set (butlast (take_items
        (ST \<lparr>url = url os, apiKey = apiKey os, startingVersion = sv\<rparr>) 0 n)). resumable x"
  shows "yields t =
      take_items (ST \<lparr>url = url os, apiKey = apiKey os, startingVersion = sv\<rparr>) 0 n"
proof (cases n)
  case 0
  with d show ?thesis by simp
next
  case (Suc m)
  let ?cfg = "\<lparr>url = url os, apiKey = apiKey os, startingVersion = sv\<rparr>"
  let ?r = "gen_next ST os SuspendedStart db"
  obtain g1 db1 t1 where d1: "drive ST os m (gen ?r) (store ?r) = (g1, db1, t1)"
    by (rule drive_cases)
  from d Suc d1 have t: "t = acts ?r @ t1"
    by (simp add: Let_def)
  have y: "yields (acts ?r) = (case ST ?cfg 0 of Item e \<Rightarrow> [e] | _ \<Rightarrow> [])"
    and g: "gen ?r = (case ST ?cfg 0 of Item e \<Rightarrow> SuspendedYield (ST ?cfg) (Suc 0) e
                      | _ \<Rightarrow> Completed)"
    using b by (simp_all add: gen_next_def Let_def db_exec_create_def yields_advance
        gen_advance)
  show ?thesis
  proof (cases "ST ?cfg 0")
    case (Item e)
    from d1 g Item
    have dd: "drive ST os m (SuspendedYield (ST ?cfg) (Suc 0) e) (store ?r) = (g1, db1, t1)"
      by simp
    have r2: "take_items (ST ?cfg) (Suc 0) m \<noteq> [] \<longrightarrow> resumable e"
      using r Suc Item by simp
    have rs: "\<forall>x \<in> set (butlast (take_items (ST ?cfg) (Suc 0) m)). resumable x"
      using r Suc Item by (simp split: if_splits)
    from progress_yield [OF dd r2 rs] show ?thesis
      by (simp add: t yields_append y Item Suc)
  next
    case Finished
    with g d1 have "t1 = []" by (simp add: drive_Completed)
    with y t Finished Suc show ?thesis by simp
  next
    case (Rejected x)
    with g d1 have "t1 = []" by (simp add: drive_Completed)
    with y t Rejected Suc show ?thesis by simp
  qed
qed

lemma take_items_items:
  "length es = k \<Longrightarrow> (\<forall>j<k. s (i + j) = Item (es ! j)) \<Longrightarrow> take_items s i k = es"
proof (induction k arbitrary: i es)
  case 0
  then show ?case by simp
next
  case (Suc k)
  then obtain x xs where es: "es = x # xs" by (cases es) simp_all
  from Suc.prems(2) have "s (i + 0) = Item (es ! 0)" by blast
  then have x: "s i = Item x" by (simp add: es)
  have "\<forall>j<k. s (Suc i + j) = Item (xs ! j)"
  proof (intro allI impI)
    fix j assume "j < k"
    then have "Suc j < Suc k" by simp
    with Suc.prems(2) have "s (i + Suc j) = Item (es ! Suc j)" by blast
    then show "s (Suc i + j) = Item (xs ! j)" by (simp add: es)
  qed
  moreover from Suc.prems(1) have "length xs = k" by (simp add: es)
  ultimately have "take_items s (Suc i) k = xs" by (rule Suc.IH [rotated])
  with x show ?case by (simp add: es)
qed

lemma follow_next:
  "upserts_follow (pending g) (acts (gen_next ST os g db) @ bs) =
     upserts_follow (pending (gen (gen_next ST os g db))) bs"
  by (cases g)
     (auto simp: gen_next_def Let_def advance_def
           split: sum.splits event.splits pull.splits)

lemma follow_drive:
  "drive ST os n g db = (g', db', t) \<Longrightarrow> upserts_follow (pending g) t"
proof (induction n arbitrary: g db g' db' t)
  case 0
  then show ?case by simp
next
  case (Suc n)
  let ?r = "gen_next ST os g db"
  obtain g1 db1 t1 where d: "drive ST os n (gen ?r) (store ?r) = (g1, db1, t1)"
    by (rule drive_cases)
  from Suc.prems d have t: "t = acts ?r @ t1"
    by (simp add: Let_def)
  from Suc.IH [OF d] show ?case
    by (simp add: t follow_next)
qed

lemma commit_next_yield:
  "gen (gen_next ST os (SuspendedYield s i e) db) \<noteq> Completed \<Longrightarrow>
     db_get (store (gen_next ST os (SuspendedYield s i e) db)) = commit (db_get db) e"
  by (cases e)
     (auto simp: gen_next_def store_advance db_get_def db_upsert_def
           split: sum.splits if_splits)

lemma committed_drive_yield:
  "drive ST os n (SuspendedYield s i e) db = (SuspendedYield s' i' e', db', t) \<Longrightarrow>
     db_get db' = committed (db_get db) (butlast (e # yields t)) \<and> last (e # yields t) = e'"
proof (induction n arbitrary: i e db t)
  case 0
  then show ?case by (simp add: committed_def)
next
  case (Suc n)
  let ?r = "gen_next ST os (SuspendedYield s i e) db"
  obtain g1 db1 t1 where d: "drive ST os n (gen ?r) (store ?r) = (g1, db1, t1)"
    by (rule drive_cases)
  from Suc.prems d have t: "t = acts ?r @ t1" and g1: "g1 = SuspendedYield s' i' e'"
    and db1: "db1 = db'"
    by (simp_all add: Let_def)
  from next_from_yield [of ST os s i e db] show ?case
  proof (elim disjE conjE exE)
    assume "gen ?r = Completed"
    with d g1 show ?thesis by (simp add: drive_Completed)
  next
    fix e2
    assume g: "gen ?r = SuspendedYield s (Suc i) e2" and y: "yields (acts ?r) = [e2]"
    from d g g1 db1
    have "drive ST os n (SuspendedYield s (Suc i) e2) (store ?r) = (SuspendedYield s' i' e', db', t1)"
      by simp
    from Suc.IH [OF this]
    have ih: "db_get db' = committed (db_get (store ?r)) (butlast (e2 # yields t1))"
      and l: "last (e2 # yields t1) = e'" by simp_all
    from g have "gen ?r \<noteq> Completed" by simp
    from commit_next_yield [OF this] have c: "db_get (store ?r) = commit (db_get db) e" .
    show ?thesis
      using ih l by (simp add: t yields_append y c committed_def)
  qed
qed

lemma store_next_start: "store (gen_next ST os SuspendedStart db) = db"
  by (simp add: gen_next_def Let_def db_exec_create_def store_advance split: sum.splits)

lemma committed_drive_start:
  assumes "drive ST os n SuspendedStart db = (SuspendedYield s' i' e', db', t)"
  shows "yields t \<noteq> [] \<and> last (yields t) = e' \<and>
     db_get db' = committed (db_get db) (butlast (yields t))"
proof (cases n)
  case 0
  with assms show ?thesis by simp
next
  case (Suc m)
  let ?r = "gen_next ST os SuspendedStart db"
  obtain g1 db1 t1 where d: "drive ST os m (gen ?r) (store ?r) = (g1, db1, t1)"
    by (rule drive_cases)
  from assms Suc d have t: "t = acts ?r @ t1" and g1: "g1 = SuspendedYield s' i' e'"
    and db1: "db1 = db'"
    by (simp_all add: Let_def)
  from next_from_start [of ST os db] show ?thesis
  proof (elim disjE conjE exE)
    assume "gen ?r = Completed"
    with d g1 show ?thesis by (simp add: drive_Completed)
  next
    fix cfg
    assume "gen ?r = Completed"
    with d g1 show ?thesis by (simp add: drive_Completed)
  next
    fix cfg e2
    assume g: "gen ?r = SuspendedYield (ST cfg) (Suc 0) e2" and y: "yields (acts ?r) = [e2]"
    from d g g1 db1
    have "drive ST os m (SuspendedYield (ST cfg) (Suc 0) e2) (store ?r) = (SuspendedYield s' i' e', db', t1)"
      by simp
    from committed_drive_yield [OF this]
    show ?thesis by (simp add: t yields_append y store_next_start)
  qed
qed

lemma settled_yielded:
  "settled (gen_next ST os g db) = Yielded e \<Longrightarrow>
     \<exists>s i. gen (gen_next ST os g db) = SuspendedYield s i e \<and>
       (\<exists>as. acts (gen_next ST os g db) = as @ [Yield e])"
  by (cases g)
     (auto simp: gen_next_def Let_def advance_def
           split: sum.splits event.splits pull.splits)

lemma BigInt_throws: "BigInt v = Inl x \<Longrightarrow> x = RangeError \<or> x = SyntaxError"
proof (cases v)
  case (VNumber y)
  assume "BigInt v = Inl x"
  with VNumber show ?thesis by (cases y) (auto split: if_splits)
qed (auto split: option.splits)

lemma nextStartingVersion_throws: "nextStartingVersion txs = Inl x \<Longrightarrow> x = TypeError"
  by (auto simp: nextStartingVersion_def version_of_def plus_1n_def at_def
        split: option.splits if_splits)

lemma next_never_mismatch: "settled (gen_next ST os g db) \<noteq> Threw (ChainIdMismatch c)"
proof (cases g)
  case SuspendedStart
  then show ?thesis
    by (auto simp: gen_next_def Let_def advance_def split: sum.splits pull.splits
          dest: BigInt_throws)
next
  case (SuspendedYield s i e)
  then show ?thesis
    by (auto simp: gen_next_def Let_def advance_def db_upsert_def
          split: sum.splits pull.splits event.splits if_splits
          dest: nextStartingVersion_throws)
next
  case Completed
  then show ?thesis by (simp add: gen_next_def)
qed

lemma handle_event_mismatch:
  "handle_event ev = Inl (ChainIdMismatch c) \<Longrightarrow> \<exists>txs. ev = Data c txs \<and> c \<noteq> 2"
  by (cases ev)
     (auto simp: handle_event_def version_of_def split: if_splits sum.splits option.splits)

lemma main_loop_mismatch:
  "ended (main_loop ST os n g db) = Failed (ChainIdMismatch c) \<Longrightarrow>
     gen_after (main_loop ST os n g db) = Completed \<and>
     (\<exists>as txs. c \<noteq> 2 \<and> trace (main_loop ST os n g db) = as @ [Yield (Data c txs), Close, Return])"
proof (induction n arbitrary: g db)
  case 0
  then show ?case by simp
next
  case (Suc n)
  let ?r = "gen_next ST os g db"
  show ?case
  proof (cases "settled ?r")
    case Done
    with Suc.prems show ?thesis by (simp add: Let_def)
  next
    case (Threw x)
    with Suc.prems have "x = ChainIdMismatch c" by (simp add: Let_def)
    with Threw next_never_mismatch [of ST os g db c] show ?thesis by simp
  next
    case (Yielded ev)
    then obtain s i as where g: "gen ?r = SuspendedYield s i ev"
      and as: "acts ?r = as @ [Yield ev]"
      using settled_yielded by blast
    show ?thesis
    proof (cases "handle_event ev")
      case (Inl x)
      with Suc.prems Yielded have "x = ChainIdMismatch c" by (simp add: Let_def)
      with Inl obtain txs where ev: "ev = Data c txs" and c: "c \<noteq> 2"
        using handle_event_mismatch by blast
      from Inl Yielded g as ev c show ?thesis
        by (simp add: Let_def gen_return_def)
    next
      case (Inr out)
      let ?m = "main_loop ST os n (gen ?r) (store ?r)"
      from Inr Yielded Suc.prems have "ended ?m = Failed (ChainIdMismatch c)"
        by (simp add: Let_def)
      from Suc.IH [OF this] obtain as' txs where
        "gen_after ?m = Completed" "c \<noteq> 2" "trace ?m = as' @ [Yield (Data c txs), Close, Return]"
        by blast
      with Inr Yielded show ?thesis by (simp add: Let_def)
    qed
  qed
qed

lemma upsert_store:
  "Upsert v \<in> set (acts (gen_next ST os g db)) \<Longrightarrow>
     db_get (store (gen_next ST os g db)) = Some (VBigInt v)"
  by (cases g)
     (auto simp: gen_next_def Let_def upserts_set upserts_advance store_advance db_get_def
          db_upsert_def split: sum.splits event.splits if_splits)

lemma store_gen_return: "store (gen_return g db) = db"
  by (cases g) (simp_all add: gen_return_def)

lemma next_start_opens:
  "BigInt (case db_get db of None \<Rightarrow> VBigInt 0 | Some v \<Rightarrow> v) = Inr n \<Longrightarrow>
     opened (acts (gen_next ST os SuspendedStart db)) =
       [\<lparr>url = url os, apiKey = apiKey os, startingVersion = n\<rparr>] \<and>
     take 3 (acts (gen_next ST os SuspendedStart db)) =
       [DbExec, DbGet (db_get db), Open \<lparr>url = url os, apiKey = apiKey os, startingVersion = n\<rparr>]"
  by (simp add: gen_next_def Let_def db_exec_create_def opened_advance advance_def
        split: pull.splits)

lemma next_start_throws:
  "BigInt (case db_get db of None \<Rightarrow> VBigInt 0 | Some v \<Rightarrow> v) = Inl x \<Longrightarrow>
     opened (acts (gen_next ST os SuspendedStart db)) = [] \<and>
     settled (gen_next ST os SuspendedStart db) = Threw x"
  by (simp add: gen_next_def Let_def db_exec_create_def)

lemma length_acts_next_start: "3 \<le> length (acts (gen_next ST os SuspendedStart db))"
  by (simp add: gen_next_def Let_def advance_def split: sum.splits pull.splits)

lemma frame_data: "Data c txs \<in> set (frame ws) \<Longrightarrow> txs \<noteq> []"
  by (induction ws rule: frame.induct) (auto split: if_splits)

lemma at_first: "txs \<noteq> [] \<Longrightarrow> version_of (at txs 0) = Inr (version (hd txs))"
  by (cases txs) (simp_all add: at_def version_of_def)

lemma at_last: "txs \<noteq> [] \<Longrightarrow> version_of (at txs (int (length txs) - 1)) = Inr (version (last txs))"
  by (cases txs rule: rev_cases) (simp_all add: at_def version_of_def nth_append)

lemma digits_snoc:
  "digits r (xs @ [c]) acc =
     (case digits r xs acc of
        None \<Rightarrow> None
      | Some a \<Rightarrow> (case digit c of None \<Rightarrow> None | Some d \<Rightarrow> if d < r then Some (a * r + d) else None))"
  by (induction xs arbitrary: acc) (simp_all split: option.splits)

lemma digit_decimal: "d < 10 \<Longrightarrow> digit (0x30 + d) = Some d"
  by (simp add: digit_def)

lemma digits_decimal_nat: "digits 10 (decimal_nat n) 0 = Some n"
proof (induction n rule: decimal_nat.induct)
  case (1 n)
  show ?case
  proof (cases "n < 10")
    case True
    then show ?thesis by (simp add: decimal_nat.simps [of n] digit_decimal)
  next
    case False
    with 1 have "digits 10 (decimal_nat (n div 10)) 0 = Some (n div 10)" by simp
    with False show ?thesis
      by (simp add: decimal_nat.simps [of n] digits_snoc digit_decimal)
  qed
qed

lemma decimal_nat_not_Nil: "decimal_nat n \<noteq> []"
  by (simp add: decimal_nat.simps [of n])

lemma decimal_nat_chars: "c \<in> set (decimal_nat n) \<Longrightarrow> 0x30 \<le> c \<and> c \<le> 0x39"
proof (induction n rule: decimal_nat.induct)
  case (1 n)
  show ?case
  proof (cases "n < 10")
    case True
    with "1.prems" show ?thesis by (simp add: decimal_nat.simps [of n])
  next
    case False
    from "1.prems" False have "c \<in> set (decimal_nat (n div 10)) \<or> c = 0x30 + n mod 10"
      by (auto simp: decimal_nat.simps [of n])
    then show ?thesis
    proof
      assume "c \<in> set (decimal_nat (n div 10))"
      with "1.IH" False show ?thesis by simp
    next
      assume c: "c = 0x30 + n mod 10"
      have "n mod 10 < 10" by simp
      with c show ?thesis by linarith
    qed
  qed
qed

lemma decimal_nat_leading_zero: "hd (decimal_nat n) = 0x30 \<Longrightarrow> decimal_nat n = [0x30]"
proof (induction n rule: decimal_nat.induct)
  case (1 n)
  show ?case
  proof (cases "n < 10")
    case True
    then have "decimal_nat n = [0x30 + n]" by (simp add: decimal_nat.simps [of n])
    with "1.prems" show ?thesis by simp
  next
    case False
    with "1.prems" have "hd (decimal_nat (n div 10)) = 0x30"
      by (simp add: decimal_nat.simps [of n] decimal_nat_not_Nil)
    with "1.IH" False have "decimal_nat (n div 10) = [0x30]" by simp
    then have "digits 10 [0x30] 0 = Some (n div 10)" using digits_decimal_nat [of "n div 10"] by simp
    then have "n div 10 = 0" by (simp add: digit_def)
    then have "n < 10" by presburger
    with False show ?thesis by simp
  qed
qed

lemma not_space_digit: "0x30 \<le> c \<Longrightarrow> c \<le> 0x39 \<Longrightarrow> \<not> StrWhiteSpaceChar c"
  by (simp add: StrWhiteSpaceChar_def)

lemma trim_id:
  assumes "xs \<noteq> []" "\<not> StrWhiteSpaceChar (hd xs)" "\<not> StrWhiteSpaceChar (last xs)"
  shows "trim xs = xs"
proof -
  from assms have "dropWhile StrWhiteSpaceChar xs = xs" by (cases xs) simp_all
  moreover from assms have "dropWhile StrWhiteSpaceChar (rev xs) = rev xs"
    by (cases xs rule: rev_cases) simp_all
  ultimately show ?thesis by (simp add: trim_def)
qed

lemma trim_decimal_nat: "trim (decimal_nat n) = decimal_nat n"
proof (rule trim_id)
  show ne: "decimal_nat n \<noteq> []" by (rule decimal_nat_not_Nil)
  from ne have "hd (decimal_nat n) \<in> set (decimal_nat n)" by simp
  then show "\<not> StrWhiteSpaceChar (hd (decimal_nat n))"
    using decimal_nat_chars not_space_digit by blast
  from ne have "last (decimal_nat n) \<in> set (decimal_nat n)" by simp
  then show "\<not> StrWhiteSpaceChar (last (decimal_nat n))"
    using decimal_nat_chars not_space_digit by blast
qed

lemma literal_decimal_nat: "literal 10 (decimal_nat n) = Some n"
  by (simp add: literal_def decimal_nat_not_Nil digits_decimal_nat)

lemma StringToBigInt_decimal_nat: "StringToBigInt (decimal_nat n) = Some (int n)"
proof -
  obtain c cs where cs: "decimal_nat n = c # cs"
    using decimal_nat_not_Nil [of n] by (cases "decimal_nat n") simp_all
  then have "c \<in> set (decimal_nat n)" by simp
  then have c: "0x30 \<le> c \<and> c \<le> 0x39" by (rule decimal_nat_chars)
  have z: "c = 0x30 \<Longrightarrow> cs = []"
    using decimal_nat_leading_zero [of n] cs by simp
  from c have "c \<noteq> 0x2B" "c \<noteq> 0x2D" by simp_all
  moreover have "literal 10 (c # cs) = Some n" using literal_decimal_nat [of n] cs by simp
  moreover have "trim (c # cs) = c # cs" using trim_decimal_nat [of n] cs by simp
  ultimately show ?thesis
    using z by (auto simp: StringToBigInt_def cs)
qed

lemma trim_minus_decimal_nat: "trim (0x2D # decimal_nat n) = 0x2D # decimal_nat n"
proof (rule trim_id)
  show "0x2D # decimal_nat n \<noteq> []" by simp
  show "\<not> StrWhiteSpaceChar (hd (0x2D # decimal_nat n))" by (simp add: StrWhiteSpaceChar_def)
  have "last (decimal_nat n) \<in> set (decimal_nat n)" by (simp add: decimal_nat_not_Nil)
  then have "\<not> StrWhiteSpaceChar (last (decimal_nat n))"
    using decimal_nat_chars not_space_digit by blast
  then show "\<not> StrWhiteSpaceChar (last (0x2D # decimal_nat n))"
    by (simp add: decimal_nat_not_Nil)
qed

lemma StringToBigInt_decimal: "StringToBigInt (decimal n) = Some n"
proof (cases "n < 0")
  case True
  then show ?thesis
    by (simp add: decimal_def StringToBigInt_def trim_minus_decimal_nat literal_decimal_nat)
next
  case False
  then show ?thesis by (simp add: decimal_def StringToBigInt_decimal_nat)
qed

lemma BigInt_represents: "represents v n \<Longrightarrow> BigInt v = Inr n"
proof (cases v)
  case (VString s)
  assume "represents v n"
  with VString show ?thesis by (simp add: StringToBigInt_decimal)
next
  case (VNumber x)
  assume r: "represents v n"
  show ?thesis
  proof (cases x)
    case (Finite m e)
    with r VNumber show ?thesis by (auto split: if_splits)
  qed (use r VNumber in simp_all)
next
  case (VBigInt m)
  assume "represents v n"
  with VBigInt show ?thesis by simp
qed

lemma take_items_session_of: "take_items (session_of es) i k = take k (drop i es)"
proof (induction k arbitrary: i)
  case 0
  then show ?case by simp
next
  case (Suc k)
  show ?case
  proof (cases "i < length es")
    case True
    then have "drop i es = es ! i # drop (Suc i) es" by (simp add: Cons_nth_drop_Suc)
    with True Suc show ?thesis by (simp add: session_of_def)
  next
    case False
    then show ?thesis by (simp add: session_of_def)
  qed
qed

lemma first_transaction_take:
  "first_transaction (take k es) = Some t \<Longrightarrow> first_transaction es = Some t"
proof (induction es arbitrary: k)
  case Nil
  then show ?case by simp
next
  case (Cons e es)
  show ?case
  proof (cases k)
    case 0
    with Cons.prems show ?thesis by simp
  next
    case (Suc m)
    show ?thesis
    proof (cases e)
      case (Data c txs)
      with Cons Suc show ?thesis by (cases txs) auto
    next
      case (Error x)
      with Cons Suc show ?thesis by auto
    next
      case (Metadata x)
      with Cons Suc show ?thesis by auto
    next
      case (Status x)
      with Cons Suc show ?thesis by auto
    qed
  qed
qed

lemma inclusive_session_of:
  "(case first_transaction es of
      None \<Rightarrow> True
    | Some t \<Rightarrow> (case version t of None \<Rightarrow> True | Some w \<Rightarrow> v \<le> w)) \<Longrightarrow>
   inclusive (session_of es) v"
  by (auto simp: inclusive_def take_items_session_of dest!: first_transaction_take)

section \<open>The order of delivery and checkpoint\<close>

text \<open>
  C2. In every run, from any state of the generator, a write to the store comes after
  the yield of the data event it is for, with no other yield in between, and carries
  that event's last version plus one; no event is written for twice, and nothing is
  written once the generator has closed the stream. And whenever a run from the start
  leaves the generator suspended at an event it has just delivered, the checkpoint in
  the store is the one of the events delivered before it: the last delivered event is
  not in it yet. A process that stops there and starts again reads a checkpoint that
  does not skip that batch.
\<close>

theorem checkpoint_follows_delivery:
  "(drive ST os n g db = (g', db', t) \<longrightarrow> upserts_follow (pending g) t) \<and>
   (drive ST os n SuspendedStart db = (SuspendedYield s i e, db', t) \<longrightarrow>
      yields t \<noteq> [] \<and> last (yields t) = e \<and>
      db_get db' = committed (db_get db) (butlast (yields t)))"
proof (intro conjI impI)
  assume "drive ST os n g db = (g', db', t)"
  then show "upserts_follow (pending g) t" by (rule follow_drive)
next
  assume "drive ST os n SuspendedStart db = (SuspendedYield s i e, db', t)"
  from committed_drive_start [OF this]
  show "yields t \<noteq> []" and "last (yields t) = e"
    and "db_get db' = committed (db_get db) (butlast (yields t))"
    by simp_all
qed

theorem checkpoint_follows_delivery_witness:
  "upserts_follow None
     [DbExec, DbGet None, Open \<lparr>url = ''u'', apiKey = ''k'', startingVersion = 0\<rparr>,
      Pull (Item (Data 2 [tx 100, tx 101])), Yield (Data 2 [tx 100, tx 101]),
      Upsert 102, Pull (Item (Data 2 [tx 102])), Yield (Data 2 [tx 102])] \<and>
   db_get [''startingVersion'' \<mapsto> VBigInt 102] =
     committed None [Data 2 [tx 100, tx 101]]"
proof -
  let ?es = "[Data 2 [tx 100, tx 101], Data 2 [tx 102]]"
  let ?ST = "\<lambda>cfg::config. session_of ?es"
  let ?os = "\<lparr>url = ''u'', apiKey = ''k''\<rparr>"
  let ?t = "[DbExec, DbGet None, Open \<lparr>url = ''u'', apiKey = ''k'', startingVersion = 0\<rparr>,
      Pull (Item (Data 2 [tx 100, tx 101])), Yield (Data 2 [tx 100, tx 101]),
      Upsert 102, Pull (Item (Data 2 [tx 102])), Yield (Data 2 [tx 102])]"
  have d: "drive ?ST ?os (Suc (Suc 0)) SuspendedStart Map.empty =
      (SuspendedYield (session_of ?es) (Suc (Suc 0)) (Data 2 [tx 102]),
       [''startingVersion'' \<mapsto> VBigInt 102], ?t)"
    by (simp add: gen_next_def advance_def session_of_def db_get_def
          db_exec_create_def db_upsert_def int64_def nextStartingVersion_def at_def version_of_def
          plus_1n_def tx_def Let_def)
  from checkpoint_follows_delivery [THEN conjunct1, rule_format, OF d]
    checkpoint_follows_delivery [THEN conjunct2, rule_format, OF d]
  show ?thesis by (simp add: db_get_def)
qed

section \<open>The starting version\<close>

text \<open>
  C3. The first call of the generator reads the row of key \<open>startingVersion\<close> and
  calls \<open>streamTransactions\<close> once, with the version that \<open>BigInt\<close> makes of the
  stored value as \<open>startingVersion\<close>, or with 0 when there is no row; the event it
  then receives is the first of that session. With 100 in the store the session starts
  at 100.
\<close>

theorem starts_at_stored_checkpoint:
  "take 2 (acts (gen_next ST os SuspendedStart db)) =
     [DbExec, DbGet (db ''startingVersion'')] \<and>
   (db ''startingVersion'' = None \<longrightarrow>
      opened (acts (gen_next ST os SuspendedStart db)) =
        [\<lparr>url = url os, apiKey = apiKey os, startingVersion = 0\<rparr>] \<and>
      received (acts (gen_next ST os SuspendedStart db)) =
        take_items (ST \<lparr>url = url os, apiKey = apiKey os, startingVersion = 0\<rparr>) 0 1) \<and>
   (db ''startingVersion'' = Some v \<and> BigInt v = Inr n \<longrightarrow>
      opened (acts (gen_next ST os SuspendedStart db)) =
        [\<lparr>url = url os, apiKey = apiKey os, startingVersion = n\<rparr>] \<and>
      received (acts (gen_next ST os SuspendedStart db)) =
        take_items (ST \<lparr>url = url os, apiKey = apiKey os, startingVersion = n\<rparr>) 0 1)"
  by (auto simp: gen_next_def Let_def db_get_def db_exec_create_def opened_advance
        received_advance advance_def split: sum.splits pull.splits)

theorem starts_at_stored_checkpoint_witness:
  "opened (acts (gen_next (\<lambda>cfg. session_of [Status ''up''])
      \<lparr>url = ''u'', apiKey = ''k''\<rparr> SuspendedStart [''startingVersion'' \<mapsto> VBigInt 100])) =
     [\<lparr>url = ''u'', apiKey = ''k'', startingVersion = 100\<rparr>] \<and>
   opened (acts (gen_next (\<lambda>cfg. session_of [Status ''up''])
      \<lparr>url = ''u'', apiKey = ''k''\<rparr> SuspendedStart Map.empty)) =
     [\<lparr>url = ''u'', apiKey = ''k'', startingVersion = 0\<rparr>]"
proof -
  let ?ST = "\<lambda>cfg::config. session_of [Status ''up'']"
  let ?os = "\<lparr>url = ''u'', apiKey = ''k''\<rparr>"
  let ?db = "[''startingVersion'' \<mapsto> VBigInt 100]"
  have h: "?db ''startingVersion'' = Some (VBigInt 100) \<and> BigInt (VBigInt 100) = Inr 100"
    by simp
  have e: "Map.empty ''startingVersion'' = (None :: sqlval option)" by simp
  from starts_at_stored_checkpoint
         [of ?ST ?os ?db, THEN conjunct2, THEN conjunct2, rule_format, OF h]
    starts_at_stored_checkpoint
         [of ?ST ?os Map.empty, THEN conjunct2, THEN conjunct1, rule_format, OF e]
  show ?thesis by simp
qed

section \<open>Resuming\<close>

text \<open>
  C4. When a call \<open>r1\<close> of the generator has written the checkpoint \<open>v\<close> and the
  consumer is then stopped, the store \<open>db0\<close> it leaves holds \<open>v\<close>; a new run on that
  store reads \<open>v\<close> back and opens its session with \<open>startingVersion = v\<close>, once. If
  that session keeps the contract of the stream (its first transaction has a version
  of at least its starting version), the first transaction the new run delivers has a
  version of at least \<open>v\<close>.
\<close>

theorem resume_round_trip:
  "r1 = gen_next ST1 os1 g1 db1 \<and> Upsert v \<in> set (acts r1) \<and>
   db0 = store (gen_return (gen r1) (store r1)) \<and>
   cfg = \<lparr>url = url os, apiKey = apiKey os, startingVersion = v\<rparr> \<and>
   inclusive (ST cfg) v \<and>
   drive ST os (Suc n) SuspendedStart db0 = (g', db', t) \<longrightarrow>
     db_get db0 = Some (VBigInt v) \<and>
     take 3 t = [DbExec, DbGet (Some (VBigInt v)), Open cfg] \<and>
     opened t = [cfg] \<and>
     (\<forall>tr w. first_transaction (yields t) = Some tr \<and> version tr = Some w \<longrightarrow> v \<le> w)"
proof (intro impI)
  let ?r = "gen_next ST os SuspendedStart db0"
  assume a: "r1 = gen_next ST1 os1 g1 db1 \<and> Upsert v \<in> set (acts r1) \<and>
   db0 = store (gen_return (gen r1) (store r1)) \<and>
   cfg = \<lparr>url = url os, apiKey = apiKey os, startingVersion = v\<rparr> \<and>
   inclusive (ST cfg) v \<and>
   drive ST os (Suc n) SuspendedStart db0 = (g', db', t)"
  then have r1: "r1 = gen_next ST1 os1 g1 db1" and u: "Upsert v \<in> set (acts r1)"
    and db0: "db0 = store (gen_return (gen r1) (store r1))"
    and cfg: "cfg = \<lparr>url = url os, apiKey = apiKey os, startingVersion = v\<rparr>"
    and d: "drive ST os (Suc n) SuspendedStart db0 = (g', db', t)"
    and incl: "inclusive (ST cfg) v"
    by blast+
  from u have "db_get (store r1) = Some (VBigInt v)"
    unfolding r1 by (rule upsert_store)
  then have get: "db_get db0 = Some (VBigInt v)"
    by (simp add: db0 store_gen_return)
  then have "BigInt (case db_get db0 of None \<Rightarrow> VBigInt 0 | Some v \<Rightarrow> v) = Inr v" by simp
  from next_start_opens [OF this, of ST os]
  have o: "opened (acts ?r) = [cfg]"
    and tk: "take 3 (acts ?r) = [DbExec, DbGet (Some (VBigInt v)), Open cfg]"
    by (simp_all add: get cfg)
  obtain g2 db2 t2 where d2: "drive ST os n (gen ?r) (store ?r) = (g2, db2, t2)"
    by (rule drive_cases)
  from d d2 have t: "t = acts ?r @ t2" by (simp add: Let_def)
  have tk3: "take 3 t = [DbExec, DbGet (Some (VBigInt v)), Open cfg]"
    using tk length_acts_next_start [of ST os db0] by (simp add: t)
  from yields_drive_start [OF d] t o
  obtain k where k: "yields t = take_items (ST cfg) 0 k" and ot: "opened t = [cfg]"
    by (auto simp: opened_append)
  have "\<forall>tr w. first_transaction (yields t) = Some tr \<and> version tr = Some w \<longrightarrow> v \<le> w"
    using incl k by (auto simp: inclusive_def)
  with get tk3 ot
  show "db_get db0 = Some (VBigInt v) \<and>
     take 3 t = [DbExec, DbGet (Some (VBigInt v)), Open cfg] \<and>
     opened t = [cfg] \<and>
     (\<forall>tr w. first_transaction (yields t) = Some tr \<and> version tr = Some w \<longrightarrow> v \<le> w)"
    by simp
qed

theorem resume_round_trip_witness:
  "db_get [''startingVersion'' \<mapsto> VBigInt 100] = Some (VBigInt 100) \<and>
   opened
     [DbExec, DbGet (Some (VBigInt 100)),
      Open \<lparr>url = ''u'', apiKey = ''k'', startingVersion = 100\<rparr>,
      Pull (Item (Status ''up'')), Yield (Status ''up''),
      Pull (Item (Data 2 [tx 100, tx 101])), Yield (Data 2 [tx 100, tx 101])] =
     [\<lparr>url = ''u'', apiKey = ''k'', startingVersion = 100\<rparr>] \<and>
   (100::int) \<le> 100"
proof -
  let ?ST1 = "\<lambda>cfg::config. session_of []"
  let ?os = "\<lparr>url = ''u'', apiKey = ''k''\<rparr>"
  let ?g1 = "SuspendedYield (session_of []) 1 (Data 2 [tx 99])"
  let ?r1 = "gen_next ?ST1 ?os ?g1 Map.empty"
  let ?db0 = "[''startingVersion'' \<mapsto> VBigInt 100]"
  let ?cfg = "\<lparr>url = ''u'', apiKey = ''k'', startingVersion = 100\<rparr>"
  let ?ST = "\<lambda>cfg. session_of
      [Status ''up'', Data 2 [tx (startingVersion cfg), tx (startingVersion cfg + 1)]]"
  let ?s = "session_of [Status ''up'', Data 2 [tx 100, tx 101]]"
  let ?t = "[DbExec, DbGet (Some (VBigInt 100)), Open ?cfg,
      Pull (Item (Status ''up'')), Yield (Status ''up''),
      Pull (Item (Data 2 [tx 100, tx 101])), Yield (Data 2 [tx 100, tx 101])]"
  have u: "Upsert 100 \<in> set (acts ?r1)"
    by (simp add: gen_next_def advance_def session_of_def nextStartingVersion_def at_def
          version_of_def plus_1n_def tx_def db_upsert_def int64_def)
  have s: "?db0 = store (gen_return (gen ?r1) (store ?r1))"
    by (simp add: gen_next_def advance_def session_of_def nextStartingVersion_def at_def
          version_of_def plus_1n_def tx_def gen_return_def db_upsert_def int64_def)
  have c: "?cfg = \<lparr>url = url ?os, apiKey = apiKey ?os, startingVersion = 100\<rparr>" by simp
  have i: "inclusive (?ST ?cfg) 100"
    by (rule inclusive_session_of) (simp add: tx_def)
  have d: "drive ?ST ?os (Suc (Suc 0)) SuspendedStart ?db0 =
      (SuspendedYield ?s (Suc (Suc 0)) (Data 2 [tx 100, tx 101]), ?db0, ?t)"
    by (simp add: gen_next_def advance_def session_of_def db_get_def db_exec_create_def
          Let_def)
  have f: "first_transaction (yields ?t) = Some (tx 100) \<and> version (tx 100) = Some 100"
    by (simp add: tx_def)
  have all: "?r1 = gen_next ?ST1 ?os ?g1 Map.empty \<and> Upsert 100 \<in> set (acts ?r1) \<and>
      ?db0 = store (gen_return (gen ?r1) (store ?r1)) \<and>
      ?cfg = \<lparr>url = url ?os, apiKey = apiKey ?os, startingVersion = 100\<rparr> \<and>
      inclusive (?ST ?cfg) 100 \<and>
      drive ?ST ?os (Suc (Suc 0)) SuspendedStart ?db0 =
        (SuspendedYield ?s (Suc (Suc 0)) (Data 2 [tx 100, tx 101]), ?db0, ?t)"
    using u s c i d by blast
  from resume_round_trip [rule_format, OF all] f
  show ?thesis by blast
qed

section \<open>The chain identifier\<close>

text \<open>
  C5. When a call \<open>r\<close> of the generator delivers a data event whose \<open>chainId\<close> is not
  2, the program \<open>m\<close> of \<open>01_sqlite.ts\<close> ends with the error of lines 77-79; the
  generator is completed; after the yield of that event the only actions are the
  closing of the stream and the return, so the store is as it was when the event was
  delivered, and no later call changes it. Whenever the program ends with that error,
  its run ends this way. The loop of \<open>00_basic.ts\<close> ends with the same error.
\<close>

theorem chain_mismatch_is_fatal:
  "(r = gen_next ST os g db \<and> settled r = Yielded (Data c txs) \<and> c \<noteq> 2 \<and>
    m = main_loop ST os (Suc n) g db \<longrightarrow>
      ended m = Failed (ChainIdMismatch c) \<and> gen_after m = Completed \<and>
      store_after m = store r \<and> trace m = acts r @ [Close, Return] \<and>
      last (acts r) = Yield (Data c txs) \<and>
      drive ST os k (gen_after m) (store_after m) = (Completed, store r, [])) \<and>
   (ended (main_loop ST os n g db) = Failed (ChainIdMismatch c) \<longrightarrow>
      gen_after (main_loop ST os n g db) = Completed \<and>
      (\<exists>as txs. c \<noteq> 2 \<and>
         trace (main_loop ST os n g db) = as @ [Yield (Data c txs), Close, Return])) \<and>
   (s i = Item (Data c txs) \<and> c \<noteq> 2 \<longrightarrow>
      basic_loop s i (Suc n) = (Failed (ChainIdMismatch c), []))"
proof (intro conjI impI)
  assume a: "r = gen_next ST os g db \<and> settled r = Yielded (Data c txs) \<and> c \<noteq> 2 \<and>
    m = main_loop ST os (Suc n) g db"
  then have r: "r = gen_next ST os g db" and m: "m = main_loop ST os (Suc n) g db"
    and y: "settled r = Yielded (Data c txs)" and c2: "c \<noteq> 2"
    by blast+
  from y obtain s' i' as where g: "gen r = SuspendedYield s' i' (Data c txs)"
    and as: "acts r = as @ [Yield (Data c txs)]"
    unfolding r using settled_yielded by blast
  from c2 have h: "handle_event (Data c txs) = Inl (ChainIdMismatch c)"
    by (simp add: handle_event_def)
  have "main_loop ST os (Suc n) g db =
      \<lparr>ended = Failed (ChainIdMismatch c), gen_after = Completed, store_after = store r,
       trace = acts r @ [Close, Return], printed = []\<rparr>"
    using y g by (simp add: Let_def h gen_return_def r)
  then have m': "m = \<lparr>ended = Failed (ChainIdMismatch c), gen_after = Completed,
      store_after = store r, trace = acts r @ [Close, Return], printed = []\<rparr>"
    by (simp only: m)
  show "ended m = Failed (ChainIdMismatch c)" by (simp add: m')
  show "gen_after m = Completed" by (simp add: m')
  show "store_after m = store r" by (simp add: m')
  show "trace m = acts r @ [Close, Return]" by (simp add: m')
  show "last (acts r) = Yield (Data c txs)" by (simp add: as)
  show "drive ST os k (gen_after m) (store_after m) = (Completed, store r, [])"
    by (simp add: m' drive_Completed)
next
  assume "ended (main_loop ST os n g db) = Failed (ChainIdMismatch c)"
  from main_loop_mismatch [OF this]
  show "gen_after (main_loop ST os n g db) = Completed"
    and "\<exists>as txs. c \<noteq> 2 \<and>
        trace (main_loop ST os n g db) = as @ [Yield (Data c txs), Close, Return]"
    by simp_all
next
  assume "s i = Item (Data c txs) \<and> c \<noteq> 2"
  then show "basic_loop s i (Suc n) = (Failed (ChainIdMismatch c), [])"
    by (simp add: handle_event_def)
qed

theorem chain_mismatch_is_fatal_witness:
  "ended (main_loop (\<lambda>cfg. session_of [Data 2 [tx 100], Data 1 [tx 101]]) (testnet ''k'')
      (Suc 0) (SuspendedYield (session_of [Data 2 [tx 100], Data 1 [tx 101]]) (Suc 0) (Data 2 [tx 100]))
      [''startingVersion'' \<mapsto> VBigInt 100]) = Failed (ChainIdMismatch 1) \<and>
   store_after (main_loop (\<lambda>cfg. session_of [Data 2 [tx 100], Data 1 [tx 101]]) (testnet ''k'')
      (Suc 0) (SuspendedYield (session_of [Data 2 [tx 100], Data 1 [tx 101]]) (Suc 0) (Data 2 [tx 100]))
      [''startingVersion'' \<mapsto> VBigInt 100]) = [''startingVersion'' \<mapsto> VBigInt 101] \<and>
   gen_after (main_loop (\<lambda>cfg. session_of [Data 2 [tx 100], Data 1 [tx 101]]) (testnet ''k'')
      (Suc (Suc (Suc 0))) SuspendedStart [''startingVersion'' \<mapsto> VBigInt 100]) = Completed \<and>
   basic_loop (session_of [Data 2 [tx 100], Data 1 [tx 101]]) (Suc 0) (Suc 0) =
     (Failed (ChainIdMismatch 1), [])"
proof -
  let ?es = "[Data 2 [tx 100], Data 1 [tx 101]]"
  let ?ST = "\<lambda>cfg::config. session_of ?es"
  let ?db = "[''startingVersion'' \<mapsto> VBigInt 100]"
  let ?g = "SuspendedYield (session_of ?es) (Suc 0) (Data 2 [tx 100])"
  let ?r = "gen_next ?ST (testnet ''k'') ?g ?db"
  let ?m = "main_loop ?ST (testnet ''k'') (Suc 0) ?g ?db"
  have r: "?r = \<lparr>settled = Yielded (Data 1 [tx 101]),
      gen = SuspendedYield (session_of ?es) (Suc (Suc 0)) (Data 1 [tx 101]),
      store = [''startingVersion'' \<mapsto> VBigInt 101],
      acts = [Upsert 101, Pull (Item (Data 1 [tx 101])), Yield (Data 1 [tx 101])]\<rparr>"
    by (simp add: gen_next_def advance_def session_of_def db_upsert_def int64_def
          nextStartingVersion_def at_def version_of_def plus_1n_def tx_def)
  have h1: "?r = gen_next ?ST (testnet ''k'') ?g ?db \<and>
      settled ?r = Yielded (Data 1 [tx 101]) \<and> (1::int) \<noteq> 2 \<and>
      ?m = main_loop ?ST (testnet ''k'') (Suc 0) ?g ?db"
    by (simp add: r)
  have h2: "ended (main_loop ?ST (testnet ''k'') (Suc (Suc (Suc 0))) SuspendedStart ?db) =
      Failed (ChainIdMismatch 1)"
    by (simp add: gen_next_def gen_return_def advance_def session_of_def db_get_def
          db_exec_create_def db_upsert_def int64_def handle_event_def nextStartingVersion_def at_def
          version_of_def plus_1n_def tx_def testnet_def Let_def)
  have h3: "session_of ?es (Suc 0) = Item (Data 1 [tx 101]) \<and> (1::int) \<noteq> 2"
    by (simp add: session_of_def)
  from chain_mismatch_is_fatal [THEN conjunct1, rule_format, OF h1]
    chain_mismatch_is_fatal [THEN conjunct2, THEN conjunct1, rule_format, OF h2]
    chain_mismatch_is_fatal
      [where s = "session_of ?es" and i = "Suc 0" and c = 1 and txs = "[tx 101]" and n = 0,
       THEN conjunct2, THEN conjunct2, rule_format, OF h3]
  show ?thesis by (simp add: r)
qed

section \<open>Empty batches\<close>

text \<open>
  C6. For the stream session as the specification describes it: a batch with no
  transaction is not delivered, the sequence ends with an error event instead; so every
  data event of a session has a transaction, and reading the version of its first and
  of its last transaction, as both programs do, does not throw.
\<close>

theorem framed_batches_nonempty:
  "frame (WData c [] # ws) = [Error ''empty batch''] \<and>
   (\<forall>ev \<in> set (frame ws).
      case ev of
        Data c txs \<Rightarrow>
          txs \<noteq> [] \<and> version_of (at txs 0) = Inr (version (hd txs)) \<and>
          version_of (at txs (int (length txs) - 1)) = Inr (version (last txs))
      | _ \<Rightarrow> True)"
proof (intro conjI ballI)
  show "frame (WData c [] # ws) = [Error ''empty batch'']" by simp
next
  fix ev
  assume ev: "ev \<in> set (frame ws)"
  show "case ev of
        Data c txs \<Rightarrow>
          txs \<noteq> [] \<and> version_of (at txs 0) = Inr (version (hd txs)) \<and>
          version_of (at txs (int (length txs) - 1)) = Inr (version (last txs))
      | _ \<Rightarrow> True"
  proof (cases ev)
    case (Data c' txs)
    with ev have "txs \<noteq> []" by (auto dest: frame_data)
    with Data show ?thesis by (simp add: at_first at_last)
  qed simp_all
qed

theorem framed_batches_nonempty_witness:
  "frame [WStatus ''up'', WData 2 [tx 5, tx 6], WData 2 [], WData 2 [tx 7]] =
     [Status ''up'', Data 2 [tx 5, tx 6], Error ''empty batch''] \<and>
   version_of (at [tx 5, tx 6] 0) = Inr (Some 5) \<and>
   version_of (at [tx 5, tx 6] (int (length [tx 5, tx 6]) - 1)) = Inr (Some 6)"
proof -
  let ?ws = "[WStatus ''up'', WData 2 [tx 5, tx 6], WData 2 [], WData 2 [tx 7]]"
  have f: "frame ?ws = [Status ''up'', Data 2 [tx 5, tx 6], Error ''empty batch'']"
    by simp
  have m: "Data 2 [tx 5, tx 6] \<in> set (frame ?ws)" by simp
  from framed_batches_nonempty [of 2 ?ws, THEN conjunct2, rule_format, OF m] f
  show ?thesis by (simp add: tx_def)
qed

section \<open>Events that are not data\<close>

text \<open>
  C7. Resuming the generator after an event that is not a data event (error, metadata
  or status) leaves the store as it is, and writes nothing; and a call that writes was
  resumed after a data event.
\<close>

theorem only_data_events_write:
  "(\<not> is_data e \<longrightarrow>
      store (gen_next ST os (SuspendedYield s i e) db) = db \<and>
      upserts (acts (gen_next ST os (SuspendedYield s i e) db)) = []) \<and>
   (Upsert w \<in> set (acts (gen_next ST os g db)) \<longrightarrow>
      (\<exists>s i c txs. g = SuspendedYield s i (Data c txs)))"
proof (intro conjI impI)
  assume "\<not> is_data e"
  then show "store (gen_next ST os (SuspendedYield s i e) db) = db"
    by (cases e) (simp_all add: gen_next_def store_advance)
next
  assume "\<not> is_data e"
  then show "upserts (acts (gen_next ST os (SuspendedYield s i e) db)) = []"
    by (cases e) (simp_all add: gen_next_def upserts_advance)
next
  assume "Upsert w \<in> set (acts (gen_next ST os g db))"
  then show "\<exists>s i c txs. g = SuspendedYield s i (Data c txs)"
    by (cases g)
       (auto simp: gen_next_def Let_def upserts_set upserts_advance
             split: sum.splits event.splits)
qed

theorem only_data_events_write_witness:
  "store (gen_next (\<lambda>cfg. session_of []) (testnet ''k'')
      (SuspendedYield (session_of [Metadata ''m'', Data 2 [tx 7]]) 1 (Metadata ''m''))
      [''startingVersion'' \<mapsto> VBigInt 7]) = [''startingVersion'' \<mapsto> VBigInt 7] \<and>
   upserts (acts (gen_next (\<lambda>cfg. session_of []) (testnet ''k'')
      (SuspendedYield (session_of [Metadata ''m'', Data 2 [tx 7]]) 1 (Metadata ''m''))
      [''startingVersion'' \<mapsto> VBigInt 7])) = [] \<and>
   (\<exists>s i c txs. SuspendedYield (session_of []) 1 (Data 2 [tx 7]) =
      SuspendedYield s i (Data c txs))"
proof -
  let ?ST = "\<lambda>cfg::config. session_of []"
  have h: "\<not> is_data (Metadata ''m'')" by simp
  have u: "Upsert 8 \<in> set (acts (gen_next ?ST (testnet ''k'')
      (SuspendedYield (session_of []) 1 (Data 2 [tx 7])) Map.empty))"
    by (simp add: gen_next_def advance_def session_of_def nextStartingVersion_def at_def
          version_of_def plus_1n_def tx_def db_upsert_def int64_def)
  from only_data_events_write [THEN conjunct1, rule_format, OF h]
    only_data_events_write [THEN conjunct2, rule_format, OF u]
  show ?thesis by blast
qed

section \<open>Cancellation\<close>

text \<open>
  C8. \<open>return()\<close>, which the caller's loop calls when it is left, writes nothing: the
  store is unchanged, in particular when the generator was suspended at a data event,
  whose checkpoint is then never written; the generator is completed, and no later
  call of \<open>next()\<close> does anything.
\<close>

theorem cancellation_writes_nothing:
  "store (gen_return g db) = db \<and> gen (gen_return g db) = Completed \<and>
   upserts (acts (gen_return g db)) = [] \<and>
   drive ST os n (gen (gen_return g db)) (store (gen_return g db)) = (Completed, db, [])"
  by (cases g) (simp_all add: gen_return_def drive_Completed)

theorem cancellation_writes_nothing_witness:
  "db_get (store (gen_return (SuspendedYield (session_of []) 1 (Data 2 [tx 104]))
      [''startingVersion'' \<mapsto> VBigInt 100])) = Some (VBigInt 100) \<and>
   acts (gen_return (SuspendedYield (session_of []) 1 (Data 2 [tx 104]))
      [''startingVersion'' \<mapsto> VBigInt 100]) = [Close, Return]"
  using cancellation_writes_nothing
    [of "SuspendedYield (session_of []) 1 (Data 2 [tx 104])"
        "[''startingVersion'' \<mapsto> VBigInt 100]" "\<lambda>cfg. session_of []" "testnet ''k''" 0]
  by (simp add: db_get_def gen_return_def)

section \<open>Events are passed through\<close>

text \<open>
  C9. In every run the events yielded are the events received from the underlying
  stream, in the same order, none added or changed; in a run from the start, the
  \<open>j\<close>-th event yielded is the \<open>j\<close>-th event of the session that was opened; and
  none is dropped: \<open>n\<close> calls from the start yield all the events of the first \<open>n\<close>
  calls of the session, as long as resuming after each of them but the last does not
  throw. So when the session gives the \<open>n\<close> events of a list, \<open>n\<close> calls yield
  that list.
\<close>

theorem events_passed_through_unchanged:
  "(drive ST os n g db = (g', db', t) \<longrightarrow> yields t = received t) \<and>
   (drive ST os n SuspendedStart db = (g', db', t) \<and> cfg \<in> set (opened t) \<and>
    j < length (yields t) \<longrightarrow> ST cfg j = Item (yields t ! j)) \<and>
   (drive ST os n SuspendedStart db = (g', db', t) \<and>
    BigInt (case db ''startingVersion'' of None \<Rightarrow> VBigInt 0 | Some x \<Rightarrow> x) = Inr sv \<and>
    cfg = \<lparr>url = url os, apiKey = apiKey os, startingVersion = sv\<rparr> \<and>
    (\<forall>x \<in> set (butlast (take_items (ST cfg) 0 n)). resumable x) \<longrightarrow>
      yields t = take_items (ST cfg) 0 n \<and> received t = take_items (ST cfg) 0 n) \<and>
   (drive ST os n SuspendedStart db = (g', db', t) \<and>
    BigInt (case db ''startingVersion'' of None \<Rightarrow> VBigInt 0 | Some x \<Rightarrow> x) = Inr sv \<and>
    cfg = \<lparr>url = url os, apiKey = apiKey os, startingVersion = sv\<rparr> \<and>
    length es = n \<and> (\<forall>j<n. ST cfg j = Item (es ! j)) \<and>
    (\<forall>x \<in> set (butlast es). resumable x) \<longrightarrow>
      yields t = es \<and> received t = es)"
proof (intro conjI impI)
  assume "drive ST os n g db = (g', db', t)"
  then show "yields t = received t" by (rule yields_received_drive)
next
  assume a: "drive ST os n SuspendedStart db = (g', db', t) \<and> cfg \<in> set (opened t) \<and>
    j < length (yields t)"
  then have d: "drive ST os n SuspendedStart db = (g', db', t)" by simp
  from yields_drive_start [OF d] a obtain k where "yields t = take_items (ST cfg) 0 k"
    by auto
  with take_items_nth [of j "ST cfg" 0 k] a show "ST cfg j = Item (yields t ! j)" by simp
next
  assume a: "drive ST os n SuspendedStart db = (g', db', t) \<and>
    BigInt (case db ''startingVersion'' of None \<Rightarrow> VBigInt 0 | Some x \<Rightarrow> x) = Inr sv \<and>
    cfg = \<lparr>url = url os, apiKey = apiKey os, startingVersion = sv\<rparr> \<and>
    (\<forall>x \<in> set (butlast (take_items (ST cfg) 0 n)). resumable x)"
  then have d: "drive ST os n SuspendedStart db = (g', db', t)"
    and b: "BigInt (case db_get db of None \<Rightarrow> VBigInt 0 | Some v \<Rightarrow> v) = Inr sv"
    and r: "\<forall>x \<in> set (butlast (take_items
        (ST \<lparr>url = url os, apiKey = apiKey os, startingVersion = sv\<rparr>) 0 n)). resumable x"
    by (simp_all add: db_get_def)
  from progress_start [OF d b r] a show y: "yields t = take_items (ST cfg) 0 n" by simp
  from yields_received_drive [OF d] y show "received t = take_items (ST cfg) 0 n" by simp
next
  assume a: "drive ST os n SuspendedStart db = (g', db', t) \<and>
    BigInt (case db ''startingVersion'' of None \<Rightarrow> VBigInt 0 | Some x \<Rightarrow> x) = Inr sv \<and>
    cfg = \<lparr>url = url os, apiKey = apiKey os, startingVersion = sv\<rparr> \<and>
    length es = n \<and> (\<forall>j<n. ST cfg j = Item (es ! j)) \<and>
    (\<forall>x \<in> set (butlast es). resumable x)"
  then have d: "drive ST os n SuspendedStart db = (g', db', t)"
    and b: "BigInt (case db_get db of None \<Rightarrow> VBigInt 0 | Some v \<Rightarrow> v) = Inr sv"
    and cfg: "cfg = \<lparr>url = url os, apiKey = apiKey os, startingVersion = sv\<rparr>"
    by (simp_all add: db_get_def)
  from a have len: "length es = n" and items: "\<forall>j<n. ST cfg j = Item (es ! j)"
    and res: "\<forall>x \<in> set (butlast es). resumable x"
    by blast+
  from items have "\<forall>j<n. ST cfg (0 + j) = Item (es ! j)" by simp
  with len have ti: "take_items (ST cfg) 0 n = es" by (rule take_items_items)
  have r: "\<forall>x \<in> set (butlast (take_items
        (ST \<lparr>url = url os, apiKey = apiKey os, startingVersion = sv\<rparr>) 0 n)). resumable x"
    using res ti by (simp add: cfg)
  from progress_start [OF d b r] ti show y: "yields t = es" by (simp add: cfg)
  from yields_received_drive [OF d] y show "received t = es" by simp
qed

theorem events_passed_through_unchanged_witness:
  "yields
     [DbExec, DbGet None, Open \<lparr>url = ''u'', apiKey = ''k'', startingVersion = 0\<rparr>,
      Pull (Item (Status ''up'')), Yield (Status ''up''),
      Pull (Item (Data 2 [tx 0])), Yield (Data 2 [tx 0]),
      Upsert 1, Pull (Item (Error ''gone'')), Yield (Error ''gone'')] =
   received
     [DbExec, DbGet None, Open \<lparr>url = ''u'', apiKey = ''k'', startingVersion = 0\<rparr>,
      Pull (Item (Status ''up'')), Yield (Status ''up''),
      Pull (Item (Data 2 [tx 0])), Yield (Data 2 [tx 0]),
      Upsert 1, Pull (Item (Error ''gone'')), Yield (Error ''gone'')] \<and>
   session_of [Status ''up'', Data 2 [tx 0], Error ''gone''] 1 = Item (Data 2 [tx 0]) \<and>
   yields
     [DbExec, DbGet None, Open \<lparr>url = ''u'', apiKey = ''k'', startingVersion = 0\<rparr>,
      Pull (Item (Status ''up'')), Yield (Status ''up''),
      Pull (Item (Data 2 [tx 0])), Yield (Data 2 [tx 0]),
      Upsert 1, Pull (Item (Error ''gone'')), Yield (Error ''gone'')] =
     take_items (session_of [Status ''up'', Data 2 [tx 0], Error ''gone'']) 0
       (Suc (Suc (Suc 0))) \<and>
   yields
     [DbExec, DbGet None, Open \<lparr>url = ''u'', apiKey = ''k'', startingVersion = 0\<rparr>,
      Pull (Item (Status ''up'')), Yield (Status ''up''),
      Pull (Item (Data 2 [tx 0])), Yield (Data 2 [tx 0]),
      Upsert 1, Pull (Item (Error ''gone'')), Yield (Error ''gone'')] =
     [Status ''up'', Data 2 [tx 0], Error ''gone'']"
proof -
  let ?es = "[Status ''up'', Data 2 [tx 0], Error ''gone'']"
  let ?ST = "\<lambda>cfg. session_of [Status ''up'', Data 2 [tx (startingVersion cfg)], Error ''gone'']"
  let ?os = "\<lparr>url = ''u'', apiKey = ''k''\<rparr>"
  let ?cfg = "\<lparr>url = ''u'', apiKey = ''k'', startingVersion = 0\<rparr>"
  let ?n = "Suc (Suc (Suc 0))"
  let ?t = "[DbExec, DbGet None, Open ?cfg,
      Pull (Item (Status ''up'')), Yield (Status ''up''),
      Pull (Item (Data 2 [tx 0])), Yield (Data 2 [tx 0]),
      Upsert 1, Pull (Item (Error ''gone'')), Yield (Error ''gone'')]"
  let ?g = "SuspendedYield (session_of ?es) ?n (Error ''gone'')"
  let ?db = "[''startingVersion'' \<mapsto> VBigInt 1]"
  have d: "drive ?ST ?os ?n SuspendedStart Map.empty = (?g, ?db, ?t)"
    by (simp add: gen_next_def advance_def session_of_def db_get_def
          db_exec_create_def db_upsert_def int64_def nextStartingVersion_def at_def
          version_of_def plus_1n_def tx_def Let_def)
  have b0: "BigInt (case Map.empty ''startingVersion'' of None \<Rightarrow> VBigInt 0 | Some x \<Rightarrow> x) =
      Inr 0"
    by simp
  have c0: "?cfg = \<lparr>url = url ?os, apiKey = apiKey ?os, startingVersion = 0\<rparr>" by simp
  have ti: "take_items (?ST ?cfg) 0 ?n = ?es"
    by (simp add: session_of_def)
  have res: "\<forall>x \<in> set (butlast ?es). resumable x"
    by (simp add: resumable_def nextStartingVersion_def at_def version_of_def plus_1n_def
          tx_def int64_def)
  have r3: "\<forall>x \<in> set (butlast (take_items (?ST ?cfg) 0 ?n)). resumable x"
    using res by (simp only: ti)
  have len: "length ?es = ?n" by simp
  have items: "\<forall>j<?n. ?ST ?cfg j = Item (?es ! j)"
    by (simp add: session_of_def)
  have o: "?cfg \<in> set (opened ?t)" by simp
  have j: "1 < length (yields ?t)" by simp
  have h2: "drive ?ST ?os ?n SuspendedStart Map.empty = (?g, ?db, ?t) \<and>
      ?cfg \<in> set (opened ?t) \<and> 1 < length (yields ?t)"
    by (intro conjI d o j)
  have h3: "drive ?ST ?os ?n SuspendedStart Map.empty = (?g, ?db, ?t) \<and>
      BigInt (case Map.empty ''startingVersion'' of None \<Rightarrow> VBigInt 0 | Some x \<Rightarrow> x) = Inr 0 \<and>
      ?cfg = \<lparr>url = url ?os, apiKey = apiKey ?os, startingVersion = 0\<rparr> \<and>
      (\<forall>x \<in> set (butlast (take_items (?ST ?cfg) 0 ?n)). resumable x)"
    by (intro conjI d b0 c0 r3)
  have h4: "drive ?ST ?os ?n SuspendedStart Map.empty = (?g, ?db, ?t) \<and>
      BigInt (case Map.empty ''startingVersion'' of None \<Rightarrow> VBigInt 0 | Some x \<Rightarrow> x) = Inr 0 \<and>
      ?cfg = \<lparr>url = url ?os, apiKey = apiKey ?os, startingVersion = 0\<rparr> \<and>
      length ?es = ?n \<and> (\<forall>j<?n. ?ST ?cfg j = Item (?es ! j)) \<and>
      (\<forall>x \<in> set (butlast ?es). resumable x)"
    by (intro conjI d b0 c0 len items res)
  from events_passed_through_unchanged [THEN conjunct1, rule_format, OF d]
    events_passed_through_unchanged [THEN conjunct2, THEN conjunct1, rule_format, OF h2]
    events_passed_through_unchanged
      [THEN conjunct2, THEN conjunct2, THEN conjunct1, rule_format, OF h3]
    events_passed_through_unchanged
      [THEN conjunct2, THEN conjunct2, THEN conjunct2, rule_format, OF h4]
  show ?thesis by simp
qed

section \<open>The stored value as a bigint\<close>

text \<open>
  C10. Whatever stands for the version \<open>n\<close> in the store (the bigint, a number of
  that value, or its decimal string), \<open>BigInt\<close> gives \<open>n\<close> and the stream is opened
  with \<open>startingVersion = n\<close>; with no row it is opened with 0; and whenever the
  stream is opened, its \<open>startingVersion\<close> is the bigint that \<open>BigInt\<close> made of
  the stored value (or of \<open>0n\<close>).
\<close>

theorem starting_version_is_normalised:
  "(represents v n \<and> db ''startingVersion'' = Some v \<longrightarrow>
      BigInt v = Inr n \<and>
      opened (acts (gen_next ST os SuspendedStart db)) =
        [\<lparr>url = url os, apiKey = apiKey os, startingVersion = n\<rparr>]) \<and>
   (db ''startingVersion'' = None \<longrightarrow>
      opened (acts (gen_next ST os SuspendedStart db)) =
        [\<lparr>url = url os, apiKey = apiKey os, startingVersion = 0\<rparr>]) \<and>
   (cfg \<in> set (opened (acts (gen_next ST os SuspendedStart db))) \<longrightarrow>
      BigInt (case db ''startingVersion'' of None \<Rightarrow> VBigInt 0 | Some x \<Rightarrow> x) =
        Inr (startingVersion cfg))"
proof (intro conjI impI)
  assume a: "represents v n \<and> db ''startingVersion'' = Some v"
  then show b: "BigInt v = Inr n" by (simp add: BigInt_represents)
  with a have "BigInt (case db_get db of None \<Rightarrow> VBigInt 0 | Some v \<Rightarrow> v) = Inr n"
    by (simp add: db_get_def)
  from next_start_opens [OF this]
  show "opened (acts (gen_next ST os SuspendedStart db)) =
        [\<lparr>url = url os, apiKey = apiKey os, startingVersion = n\<rparr>]" by simp
next
  assume "db ''startingVersion'' = None"
  then have "BigInt (case db_get db of None \<Rightarrow> VBigInt 0 | Some v \<Rightarrow> v) = Inr 0"
    by (simp add: db_get_def)
  from next_start_opens [OF this]
  show "opened (acts (gen_next ST os SuspendedStart db)) =
        [\<lparr>url = url os, apiKey = apiKey os, startingVersion = 0\<rparr>]" by simp
next
  assume c: "cfg \<in> set (opened (acts (gen_next ST os SuspendedStart db)))"
  show "BigInt (case db ''startingVersion'' of None \<Rightarrow> VBigInt 0 | Some x \<Rightarrow> x) =
        Inr (startingVersion cfg)"
  proof (cases "BigInt (case db_get db of None \<Rightarrow> VBigInt 0 | Some v \<Rightarrow> v)")
    case (Inl x)
    from next_start_throws [OF this] c show ?thesis by simp
  next
    case (Inr m)
    from next_start_opens [OF this] c Inr show ?thesis by (simp add: db_get_def)
  qed
qed

theorem starting_version_is_normalised_witness:
  "opened (acts (gen_next (\<lambda>cfg. session_of []) \<lparr>url = ''u'', apiKey = ''k''\<rparr> SuspendedStart
      [''startingVersion'' \<mapsto> VString [0x31, 0x30, 0x30]])) =
     [\<lparr>url = ''u'', apiKey = ''k'', startingVersion = 100\<rparr>] \<and>
   opened (acts (gen_next (\<lambda>cfg. session_of []) \<lparr>url = ''u'', apiKey = ''k''\<rparr> SuspendedStart
      [''startingVersion'' \<mapsto> VNumber (Finite 25 2)])) =
     [\<lparr>url = ''u'', apiKey = ''k'', startingVersion = 100\<rparr>] \<and>
   opened (acts (gen_next (\<lambda>cfg. session_of []) \<lparr>url = ''u'', apiKey = ''k''\<rparr> SuspendedStart
      [''startingVersion'' \<mapsto> VBigInt 100])) =
     [\<lparr>url = ''u'', apiKey = ''k'', startingVersion = 100\<rparr>] \<and>
   opened (acts (gen_next (\<lambda>cfg. session_of []) \<lparr>url = ''u'', apiKey = ''k''\<rparr> SuspendedStart
      Map.empty)) =
     [\<lparr>url = ''u'', apiKey = ''k'', startingVersion = 0\<rparr>] \<and>
   BigInt (VNumber (Finite 25 2)) = Inr 100"
proof -
  let ?ST = "\<lambda>cfg::config. session_of []"
  let ?os = "\<lparr>url = ''u'', apiKey = ''k''\<rparr>"
  let ?cfg = "\<lparr>url = ''u'', apiKey = ''k'', startingVersion = 100\<rparr>"
  let ?dbn = "[''startingVersion'' \<mapsto> VNumber (Finite 25 2)]"
  have d: "decimal 100 = [0x31, 0x30, 0x30]"
    by (simp add: decimal_def decimal_nat.simps)
  have s: "represents (VString [0x31, 0x30, 0x30]) 100 \<and>
      [''startingVersion'' \<mapsto> VString [0x31, 0x30, 0x30]] ''startingVersion'' =
        Some (VString [0x31, 0x30, 0x30])"
    by (simp add: d)
  have n: "represents (VNumber (Finite 25 2)) 100 \<and>
      ?dbn ''startingVersion'' = Some (VNumber (Finite 25 2))"
    by simp
  have b: "represents (VBigInt 100) 100 \<and>
      [''startingVersion'' \<mapsto> VBigInt 100] ''startingVersion'' = Some (VBigInt 100)"
    by simp
  have e: "Map.empty ''startingVersion'' = (None :: sqlval option)" by simp
  have o: "?cfg \<in> set (opened (acts (gen_next ?ST ?os SuspendedStart ?dbn)))"
    by (simp add: gen_next_def advance_def session_of_def db_get_def db_exec_create_def
          Let_def)
  from starting_version_is_normalised
      [of "VString [0x31, 0x30, 0x30]" 100 "[''startingVersion'' \<mapsto> VString [0x31, 0x30, 0x30]]"
          ?ST ?os, THEN conjunct1, rule_format, OF s]
    starting_version_is_normalised
      [of "VNumber (Finite 25 2)" 100 ?dbn ?ST ?os, THEN conjunct1, rule_format, OF n]
    starting_version_is_normalised
      [of "VBigInt 100" 100 "[''startingVersion'' \<mapsto> VBigInt 100]" ?ST ?os,
       THEN conjunct1, rule_format, OF b]
    starting_version_is_normalised
      [of _ _ Map.empty ?ST ?os, THEN conjunct2, THEN conjunct1, rule_format, OF e]
    starting_version_is_normalised
      [of _ _ ?dbn ?ST ?os ?cfg, THEN conjunct2, THEN conjunct2, rule_format, OF o]
  show ?thesis by simp
qed

end
